theory Spec2Isabelle
  imports Main
begin

section \<open>Data model of \<open>app.py\<close>\<close>

text \<open>
  The supervisor core of \<open>app.py\<close>: the module-level state (\<open>current_proc\<close>,
  \<open>subscribers\<close>, \<open>history\<close>), \<open>broadcast\<close>, \<open>sse_stream\<close>, \<open>spawn_process\<close> with its
  \<open>reader\<close> thread, \<open>api_stop\<close> and \<open>api_status\<close>.

  Mutation is explicit state passing. A \<open>queue.Queue\<close> object is known by its identity,
  a number; the objects live in \<open>heap\<close>, and the \<open>subscribers\<close> set holds identities only,
  so a queue removed from the set still exists for the generator that owns it. Calls to
  the operating system (\<open>subprocess.Popen\<close>, \<open>time.time\<close>, \<open>os.getpgid\<close>, \<open>os.killpg\<close>) take
  their outcome from an environment record and leave an entry in \<open>os_calls\<close>. A raised
  exception is the \<open>Inl\<close> of the outcome; the state that the call leaves behind is returned
  beside it, since a raise does not undo what was done before it.
\<close>

type_synonym line = string
type_synonym qid = nat
type_synonym pid = nat
type_synonym pgid = nat

definition LOG_HISTORY_MAX :: nat where
  "LOG_HISTORY_MAX = 2000"

datatype pyexc =
    RuntimeError string
  | QueueFull
  | ProcessLookupError
  | OSError string
  | ReadError string

datatype signal = SIGINT

datatype os_call =
    CallPopen "string list"
  | CallKillpg pgid signal
  | CallWait pid
  | ThreadStart pid

text \<open>\<open>queue.Queue(maxsize=n)\<close>: the items, oldest first, and the bound.\<close>

record queue =
  items :: "line list"
  maxsize :: nat

text \<open>The dict \<open>current_proc\<close> with its keys \<open>"p"\<close>, \<open>"start_ts"\<close>, \<open>"args"\<close>, \<open>"raw"\<close>. The process
  handle is known by its pid; the timestamp is only stored, so its type is left open.\<close>

record 't job =
  cp_p :: "pid option"
  cp_start_ts :: "'t option"
  cp_args :: "string list option"
  cp_raw :: bool

record 't state =
  current_proc :: "'t job"
  subscribers :: "qid list"
  history :: "line list"
  heap :: "qid \<Rightarrow> queue"
  next_qid :: qid
  os_calls :: "os_call list"

record 't env =
  popen :: "string list \<Rightarrow> pyexc + pid"
  time_now :: 't
  getpgid :: "pid \<Rightarrow> pyexc + pgid"
  killpg :: "pgid \<Rightarrow> signal \<Rightarrow> pyexc option"

definition idle_job :: "'t job" where
  "idle_job = \<lparr>cp_p = None, cp_start_ts = None, cp_args = None, cp_raw = False\<rparr>"

text \<open>The module's initial state (lines 18-22).\<close>

definition init_state :: "'t state" where
  "init_state =
     \<lparr>current_proc = idle_job, subscribers = [], history = [],
      heap = (\<lambda>_. \<lparr>items = [], maxsize = 0\<rparr>), next_qid = 0, os_calls = []\<rparr>"

text \<open>The set \<open>subscribers\<close> is kept as a list without repetition, and every queue in it has
  been allocated.\<close>

definition wf_state :: "'t state \<Rightarrow> bool" where
  "wf_state s =
     (distinct (subscribers s) \<and> list_all (\<lambda>q. q < next_qid s) (subscribers s))"

section \<open>Library functions the code calls\<close>

text \<open>\<open>str.rstrip("\n")\<close>: every trailing newline goes.\<close>

definition rstrip_nl :: "string \<Rightarrow> string" where
  "rstrip_nl s = rev (dropWhile (\<lambda>c. c = CHR 0x0A) (rev s))"

text \<open>\<open>xs[-n:]\<close> for a literal \<open>n\<close>: the last \<open>n\<close> elements, all of them when there are fewer
  (and all of them for \<open>n = 0\<close>, which Python reads as \<open>xs[0:]\<close>).\<close>

definition slice_last :: "nat \<Rightarrow> 'a list \<Rightarrow> 'a list" where
  "slice_last n xs = (if n = 0 then xs else drop (length xs - n) xs)"

text \<open>\<open>Queue.full\<close> and \<open>Queue.put_nowait\<close>: the latter raises \<open>queue.Full\<close> when a bounded
  queue is full, and never blocks. A bound of zero means no bound.\<close>

definition full :: "queue \<Rightarrow> bool" where
  "full q = (0 < maxsize q \<and> maxsize q \<le> length (items q))"

definition put_nowait :: "queue \<Rightarrow> line \<Rightarrow> pyexc + queue" where
  "put_nowait q ln =
     (if full q then Inl QueueFull else Inr (q\<lparr>items := items q @ [ln]\<rparr>))"

text \<open>\<open>sep.join(xs)\<close>.\<close>

fun join :: "string \<Rightarrow> string list \<Rightarrow> string" where
  "join sep [] = []"
| "join sep [x] = x"
| "join sep (x # y # ys) = x @ sep @ join sep (y # ys)"

text \<open>\<open>shlex.quote\<close>: the empty string becomes \<open>''\<close>; a string of safe characters
  (\<open>[A-Za-z0-9_@%+=:,./-]\<close>) stays as it is; any other string is put between single quotes,
  each single quote inside it written as \<open>'"'"'\<close>.\<close>

definition safe_char :: "char \<Rightarrow> bool" where
  "safe_char c =
     (c \<in> set (''abcdefghijklmnopqrstuvwxyz'' @ ''ABCDEFGHIJKLMNOPQRSTUVWXYZ'' @
               ''0123456789'' @ ''_@%+=:,./-''))"

definition squote :: char where
  "squote = CHR 0x27"

definition dquote :: char where
  "dquote = CHR 0x22"

definition shlex_quote :: "string \<Rightarrow> string" where
  "shlex_quote s =
     (if s = [] then [squote, squote]
      else if list_all safe_char s then s
      else [squote] @
           concat (map (\<lambda>c. if c = squote then [squote, dquote, squote, dquote, squote]
                             else [c]) s) @
           [squote])"

text \<open>\<open>str(n)\<close> for an integer, as the f-string of the exit code prints it.\<close>

definition digit_char :: "nat \<Rightarrow> char" where
  "digit_char d = char_of (48 + d)"

fun str_nat :: "nat \<Rightarrow> string" where
  "str_nat n = (if n < 10 then [digit_char n] else str_nat (n div 10) @ [digit_char (n mod 10)])"

declare str_nat.simps [simp del]

definition str_int :: "int \<Rightarrow> string" where
  "str_int i = (if i < 0 then CHR ''-'' # str_nat (nat (- i)) else str_nat (nat i))"

text \<open>Reading a decimal numeral back, to say that a numeral reports a number.\<close>

definition nat_of_str :: "string \<Rightarrow> nat" where
  "nat_of_str ds = foldl (\<lambda>a c. 10 * a + (of_char c - 48)) 0 ds"

definition int_of_str :: "string \<Rightarrow> int" where
  "int_of_str ds =
     (case ds of
        [] \<Rightarrow> 0
      | c # r \<Rightarrow> if c = CHR ''-'' then - int (nat_of_str r) else int (nat_of_str ds))"

section \<open>The broadcaster\<close>

text \<open>Lines 28-31, the part of \<open>broadcast\<close> under \<open>history_lock\<close>.\<close>

definition history_append :: "line \<Rightarrow> 't state \<Rightarrow> 't state" where
  "history_append ln s =
     (let h = history s @ [ln]
      in s\<lparr>history := (if LOG_HISTORY_MAX < length h then slice_last LOG_HISTORY_MAX h else h)\<rparr>)"

text \<open>Lines 32-37: the loop over the snapshot \<open>list(subscribers)\<close>. A queue whose
  \<open>put_nowait\<close> raises goes to \<open>dead\<close>; the others receive the line.\<close>

fun fanout :: "line \<Rightarrow> qid list \<Rightarrow> (qid \<Rightarrow> queue) \<Rightarrow> qid list \<Rightarrow> (qid \<Rightarrow> queue) \<times> qid list" where
  "fanout ln [] hp dead = (hp, dead)"
| "fanout ln (q # qs) hp dead =
     (case put_nowait (hp q) ln of
        Inl e \<Rightarrow> fanout ln qs hp (dead @ [q])
      | Inr q' \<Rightarrow> fanout ln qs (hp(q := q')) dead)"

text \<open>Lines 38-39: \<open>subscribers.discard(q)\<close> for every dead queue.\<close>

fun discard_all :: "qid list \<Rightarrow> qid list \<Rightarrow> qid list" where
  "discard_all [] subs = subs"
| "discard_all (q # dead) subs = discard_all dead (removeAll q subs)"

definition deliver :: "line \<Rightarrow> qid list \<Rightarrow> 't state \<Rightarrow> 't state" where
  "deliver ln snap s =
     (case fanout ln snap (heap s) [] of
        (hp, dead) \<Rightarrow> s\<lparr>heap := hp, subscribers := discard_all dead (subscribers s)\<rparr>)"

definition broadcast :: "line \<Rightarrow> 't state \<Rightarrow> 't state" where
  "broadcast ln0 s =
     (let ln = rstrip_nl ln0;
          s1 = history_append ln s
      in deliver ln (subscribers s1) s1)"

section \<open>Subscriptions\<close>

text \<open>Lines 45-49: the seeding loop, which stops at the first \<open>put_nowait\<close> that raises.\<close>

fun seed_loop :: "line list \<Rightarrow> queue \<Rightarrow> queue" where
  "seed_loop [] q = q"
| "seed_loop (ln # lns) q =
     (case put_nowait q ln of Inl e \<Rightarrow> q | Inr q' \<Rightarrow> seed_loop lns q')"

text \<open>Lines 42-49: a new queue of bound 1000, seeded under \<open>history_lock\<close>.\<close>

definition sse_seed :: "'t state \<Rightarrow> qid \<times> 't state" where
  "sse_seed s =
     (let q = next_qid s;
          qu = seed_loop (slice_last 500 (history s)) \<lparr>items = [], maxsize = 1000\<rparr>
      in (q, s\<lparr>heap := (heap s)(q := qu), next_qid := Suc q\<rparr>))"

text \<open>Line 50: \<open>subscribers.add(q)\<close>.\<close>

definition sse_register :: "qid \<Rightarrow> 't state \<Rightarrow> 't state" where
  "sse_register q s = s\<lparr>subscribers := List.insert q (subscribers s)\<rparr>"

text \<open>Lines 42-50 run without another thread in between.\<close>

definition sse_attach :: "'t state \<Rightarrow> qid \<times> 't state" where
  "sse_attach s = (case sse_seed s of (q, s1) \<Rightarrow> (q, sse_register q s1))"

text \<open>Lines 53-54: \<open>q.get()\<close> takes the oldest item and the generator yields its frame;
  on an empty queue the call blocks, which is \<open>None\<close> here.\<close>

definition frame :: "line \<Rightarrow> string" where
  "frame ln = ''data: '' @ ln @ [CHR 0x0A, CHR 0x0A]"

definition sse_next :: "qid \<Rightarrow> 't state \<Rightarrow> (string \<times> 't state) option" where
  "sse_next q s =
     (case items (heap s q) of
        [] \<Rightarrow> None
      | ln # rest \<Rightarrow> Some (frame ln, s\<lparr>heap := (heap s)(q := (heap s q)\<lparr>items := rest\<rparr>)\<rparr>))"

text \<open>Lines 57-58: the generator's \<open>finally\<close>.\<close>

definition sse_close :: "qid \<Rightarrow> 't state \<Rightarrow> 't state" where
  "sse_close q s = s\<lparr>subscribers := removeAll q (subscribers s)\<rparr>"

section \<open>The job supervisor\<close>

text \<open>The line that \<open>spawn_process\<close> announces (line 132).\<close>

definition starting_line :: "string list \<Rightarrow> line" where
  "starting_line args = ''# Starting: '' @ join '' '' (map shlex_quote args)"

text \<open>Lines 129-141 and 151, all but the last under \<open>proc_lock\<close>. The test of the slot comes
  first; the announcement is broadcast before \<open>Popen\<close> is called, so it stays when \<open>Popen\<close>
  raises; the slot is written only after \<open>Popen\<close> has returned.\<close>

definition spawn_process ::
    "'t env \<Rightarrow> string list \<Rightarrow> bool \<Rightarrow> 't state \<Rightarrow> (pyexc + unit) \<times> 't state" where
  "spawn_process ev args raw s =
     (if cp_p (current_proc s) \<noteq> None
      then (Inl (RuntimeError ''Another task is running''), s)
      else
        let s1 = broadcast (starting_line args) s;
            s2 = s1\<lparr>os_calls := os_calls s1 @ [CallPopen args]\<rparr>
        in case popen ev args of
             Inl e \<Rightarrow> (Inl e, s2)
           | Inr pr \<Rightarrow>
               (Inr (),
                s2\<lparr>current_proc :=
                      \<lparr>cp_p = Some pr, cp_start_ts = Some (time_now ev),
                       cp_args = Some args, cp_raw = raw\<rparr>,
                    os_calls := os_calls s2 @ [ThreadStart pr]\<rparr>))"

text \<open>The line that the reader reports at the end (line 148).\<close>

definition finished_line :: "int \<Rightarrow> line" where
  "finished_line rc = ''# Finished with exit code '' @ str_int rc"

text \<open>Lines 144-145: one \<open>broadcast\<close> for each line read from the child's output.\<close>

fun read_loop :: "line list \<Rightarrow> 't state \<Rightarrow> 't state" where
  "read_loop [] s = s"
| "read_loop (ln # lns) s = read_loop lns (broadcast (rstrip_nl ln) s)"

text \<open>Lines 142-150, the thread's body. The child's output is the lines read before the
  stream ended, and the exception that ended the reading, if one did. \<open>p.wait()\<close> blocks
  until the child has exited: \<open>wait_rc\<close> is the exit code it returns, or \<open>None\<close> when the
  child never exits and the call never returns. \<open>reader_states\<close> lists the states that the
  thread leaves behind, statement by statement: after the loop (l.144-145), after the
  call of \<open>p.wait()\<close> (l.147), after the broadcast of the exit code (l.148), after the
  clearing of the slot (l.149-150). The \<open>finally\<close> block runs on both ways out of the loop.\<close>

definition reader_states :: "pid \<Rightarrow> line list \<Rightarrow> int option \<Rightarrow> 't state \<Rightarrow> 't state list" where
  "reader_states pr out_lines wait_rc s =
     (let s1 = read_loop out_lines s;
          s2 = s1\<lparr>os_calls := os_calls s1 @ [CallWait pr]\<rparr>
      in case wait_rc of
           None \<Rightarrow> [s1, s2]
         | Some rc \<Rightarrow>
             let s3 = broadcast (finished_line rc) s2;
                 s4 = s3\<lparr>current_proc := idle_job\<rparr>
             in [s1, s2, s3, s4])"

text \<open>The thread as a whole: the state it ends in, and how it ends. \<open>None\<close> is a thread that
  never ends (it stays in \<open>p.wait()\<close>); otherwise an exception of the loop is raised again
  after the \<open>finally\<close> block.\<close>

definition reader ::
    "pid \<Rightarrow> line list \<Rightarrow> pyexc option \<Rightarrow> int option \<Rightarrow> 't state \<Rightarrow>
       (pyexc + unit) option \<times> 't state" where
  "reader pr out_lines read_exc wait_rc s =
     (case wait_rc of
        None \<Rightarrow> None
      | Some rc \<Rightarrow> Some (case read_exc of None \<Rightarrow> Inr () | Some e \<Rightarrow> Inl e),
      last (reader_states pr out_lines wait_rc s))"

text \<open>The JSON bodies of the routes: \<open>{"status": ...}\<close> and the status snapshot.\<close>

datatype 't response =
    Status string
  | Snapshot bool "string list option" "'t option"

text \<open>Lines 182-191. Only \<open>ProcessLookupError\<close> is caught; any other exception of
  \<open>os.getpgid\<close> or \<open>os.killpg\<close> leaves the route.\<close>

definition api_stop :: "'t env \<Rightarrow> 't state \<Rightarrow> (pyexc + 't response) \<times> 't state" where
  "api_stop ev s =
     (case cp_p (current_proc s) of
        None \<Rightarrow> (Inr (Status ''idle''), s)
      | Some pr \<Rightarrow>
          (case getpgid ev pr of
             Inl e \<Rightarrow> (if e = ProcessLookupError then Inr (Status ''stopping'') else Inl e, s)
           | Inr g \<Rightarrow>
               let s1 = s\<lparr>os_calls := os_calls s @ [CallKillpg g SIGINT]\<rparr>
               in (case killpg ev g SIGINT of
                     None \<Rightarrow> (Inr (Status ''stopping''), s1)
                   | Some e \<Rightarrow>
                       (if e = ProcessLookupError then Inr (Status ''stopping'') else Inl e,
                        s1))))"

text \<open>Lines 194-199.\<close>

definition api_status :: "'t state \<Rightarrow> 't response" where
  "api_status s =
     Snapshot (cp_p (current_proc s) \<noteq> None) (cp_args (current_proc s))
       (cp_start_ts (current_proc s))"

section \<open>Sequences of calls\<close>

text \<open>One \<open>broadcast\<close> after the other, for each line of a list.\<close>

fun broadcast_all :: "line list \<Rightarrow> 't state \<Rightarrow> 't state" where
  "broadcast_all [] s = s"
| "broadcast_all (ln # lns) s = broadcast_all lns (broadcast ln s)"

text \<open>The life of one subscription after it was attached: appends by the broadcaster and
  reads by the subscription's own generator, in some order. \<open>run_events\<close> collects the frames
  that the generator yields; a read from an empty queue waits, and yields nothing here.\<close>

datatype event = Append line | Get

fun run_events :: "qid \<Rightarrow> event list \<Rightarrow> 't state \<Rightarrow> string list \<Rightarrow> 't state \<times> string list" where
  "run_events q [] s out = (s, out)"
| "run_events q (Append ln # evs) s out = run_events q evs (broadcast ln s) out"
| "run_events q (Get # evs) s out =
     (case sse_next q s of
        None \<Rightarrow> run_events q evs s out
      | Some (fr, s') \<Rightarrow> run_events q evs s' (out @ [fr]))"

text \<open>The lines appended by a sequence of events, as \<open>broadcast\<close> stores them.\<close>

fun appended :: "event list \<Rightarrow> line list" where
  "appended [] = []"
| "appended (Append ln # evs) = rstrip_nl ln # appended evs"
| "appended (Get # evs) = appended evs"

text \<open>What a queue of bound \<open>m\<close> that holds \<open>n\<close> unread lines takes of a sequence of
  events, counted on the queue alone: the lines appended before the first append that
  finds \<open>m\<close> unread lines. A read takes one line away, if there is one.\<close>

fun accepted :: "nat \<Rightarrow> nat \<Rightarrow> event list \<Rightarrow> line list" where
  "accepted m n [] = []"
| "accepted m n (Append ln # evs) =
     (if m \<le> n then [] else rstrip_nl ln # accepted m (Suc n) evs)"
| "accepted m n (Get # evs) = accepted m (n - 1) evs"

text \<open>No append of the sequence finds the queue full.\<close>

fun never_full :: "nat \<Rightarrow> nat \<Rightarrow> event list \<Rightarrow> bool" where
  "never_full m n [] = True"
| "never_full m n (Append ln # evs) = (n < m \<and> never_full m (Suc n) evs)"
| "never_full m n (Get # evs) = never_full m (n - 1) evs"

section \<open>Threads\<close>

text \<open>
  A subscriber thread in lines 42-50 of \<open>sse_stream\<close> beside a broadcaster thread in
  \<open>broadcast\<close>. The code takes \<open>history_lock\<close> for lines 28-31 and for lines 44-49 only;
  \<open>subscribers.add(q)\<close> (line 50) and \<open>list(subscribers)\<close> (line 33) run outside every lock.
  So the threads interleave at these points, and a step below is one stretch between them:
  the seeding (a new queue, filled under the lock), the registration, the append to the
  history (under the lock), the snapshot of the subscriber set, and the delivery to the
  queues of the snapshot with the removal of the dead ones. The steps are the functions of
  the sequential model.
\<close>

datatype sub_pc = SubStart | SubSeeded qid | SubRegistered qid

datatype bc_pc = BcStart line | BcAppended line | BcSnapped line "qid list" | BcDone

datatype step = SubSeed | SubRegister | BcAppend | BcSnapshot | BcDeliver

type_synonym 't config = "'t state \<times> sub_pc \<times> bc_pc"

fun do_step :: "step \<Rightarrow> 't config \<Rightarrow> 't config option" where
  "do_step SubSeed (s, SubStart, b) = (case sse_seed s of (q, s') \<Rightarrow> Some (s', SubSeeded q, b))"
| "do_step SubRegister (s, SubSeeded q, b) = Some (sse_register q s, SubRegistered q, b)"
| "do_step BcAppend (s, u, BcStart ln) =
     Some (history_append (rstrip_nl ln) s, u, BcAppended (rstrip_nl ln))"
| "do_step BcSnapshot (s, u, BcAppended ln) = Some (s, u, BcSnapped ln (subscribers s))"
| "do_step BcDeliver (s, u, BcSnapped ln snap) = Some (deliver ln snap s, u, BcDone)"
| "do_step _ _ = None"

fun run_steps :: "step list \<Rightarrow> 't config \<Rightarrow> 't config option" where
  "run_steps [] c = Some c"
| "run_steps (a # as) c = (case do_step a c of None \<Rightarrow> None | Some c' \<Rightarrow> run_steps as c')"

text \<open>\<open>a\<close> stands before \<open>b\<close> in a schedule.\<close>

definition before :: "'a \<Rightarrow> 'a \<Rightarrow> 'a list \<Rightarrow> bool" where
  "before a b xs = (b \<in> set (dropWhile (\<lambda>x. x \<noteq> a) xs))"

text \<open>What a finished run shows of the subscription \<open>q\<close>: the history, the items of the
  queue, and whether the queue is registered.\<close>

definition observe :: "qid \<Rightarrow> 't config \<Rightarrow> line list \<times> line list \<times> bool" where
  "observe q c = (case c of (s, u, b) \<Rightarrow> (history s, items (heap s q), q \<in> set (subscribers s)))"

section \<open>Example environments and states\<close>

text \<open>An operating system where every call succeeds: the child gets pid 4242 and leads
  its own process group.\<close>

definition env_ok :: "nat env" where
  "env_ok =
     \<lparr>popen = (\<lambda>a. Inr 4242), time_now = 17, getpgid = (\<lambda>p. Inr p),
      killpg = (\<lambda>g sg. None)\<rparr>"

text \<open>The child is gone when the signal arrives at its process group.\<close>

definition env_gone_at_kill :: "nat env" where
  "env_gone_at_kill = env_ok\<lparr>killpg := (\<lambda>g sg. Some ProcessLookupError)\<rparr>"

text \<open>The child has been reaped already: its pid is unknown.\<close>

definition env_gone_at_getpgid :: "nat env" where
  "env_gone_at_getpgid = env_ok\<lparr>getpgid := (\<lambda>p. Inl ProcessLookupError)\<rparr>"

text \<open>The child runs under another user (a \<open>sudo\<close> command): the signal is refused.\<close>

definition env_eperm :: "nat env" where
  "env_eperm = env_ok\<lparr>killpg := (\<lambda>g sg. Some (OSError ''Operation not permitted''))\<rparr>"


text \<open>A job is running: \<open>yt-dlp --newline URL\<close>, pid 4242, started at time 17.\<close>

definition running_state :: "nat state" where
  "running_state =
     init_state\<lparr>current_proc :=
       \<lparr>cp_p = Some 4242, cp_start_ts = Some 17,
        cp_args = Some [''yt-dlp'', ''--newline'', ''URL''], cp_raw = False\<rparr>\<rparr>"

text \<open>Two subscribers: queue 0 holds 1000 lines that nobody read, queue 1 is empty.\<close>

definition stalled_state :: "nat state" where
  "stalled_state =
     init_state\<lparr>subscribers := [0, 1],
       heap := (\<lambda>_. \<lparr>items = replicate 1000 ''old'', maxsize = 1000\<rparr>)
                 (1 := \<lparr>items = [], maxsize = 1000\<rparr>),
       next_qid := 2\<rparr>"

section \<open>Basic facts\<close>

lemma length_slice_last: "length (slice_last n xs) = (if n = 0 then length xs else min n (length xs))"
  by (auto simp: slice_last_def)

lemma history_append_fields [simp]:
  "current_proc (history_append ln s) = current_proc s"
  "subscribers (history_append ln s) = subscribers s"
  "heap (history_append ln s) = heap s"
  "next_qid (history_append ln s) = next_qid s"
  "os_calls (history_append ln s) = os_calls s"
  by (simp_all add: history_append_def Let_def)

lemma deliver_fields [simp]:
  "current_proc (deliver ln snap s) = current_proc s"
  "history (deliver ln snap s) = history s"
  "next_qid (deliver ln snap s) = next_qid s"
  "os_calls (deliver ln snap s) = os_calls s"
  by (simp_all add: deliver_def split: prod.splits)

lemma broadcast_fields [simp]:
  "current_proc (broadcast ln s) = current_proc s"
  "next_qid (broadcast ln s) = next_qid s"
  "os_calls (broadcast ln s) = os_calls s"
  by (simp_all add: broadcast_def Let_def)

lemma history_broadcast: "history (broadcast ln s) = history (history_append (rstrip_nl ln) s)"
  by (simp add: broadcast_def Let_def)

lemma rstrip_nl_id: "s = [] \<or> last s \<noteq> CHR 0x0A \<Longrightarrow> rstrip_nl s = s"
  by (cases s rule: rev_cases) (auto simp: rstrip_nl_def)

lemma rstrip_nl_idem: "rstrip_nl (rstrip_nl s) = rstrip_nl s"
  by (simp add: rstrip_nl_def)

lemma safe_char_not_nl: "safe_char c \<Longrightarrow> c \<noteq> CHR 0x0A"
  by (auto simp: safe_char_def)

lemma shlex_quote_last: "shlex_quote s \<noteq> [] \<and> last (shlex_quote s) \<noteq> CHR 0x0A"
proof (cases "s = []")
  case True
  then show ?thesis by (simp add: shlex_quote_def squote_def)
next
  case False
  then have "safe_char (last s)" if "list_all safe_char s"
    using that by (simp add: list_all_iff)
  with False show ?thesis
    by (auto simp: shlex_quote_def squote_def dest: safe_char_not_nl)
qed

lemma join_last:
  "xs \<noteq> [] \<Longrightarrow> last xs \<noteq> [] \<Longrightarrow> join sep xs \<noteq> [] \<and> last (join sep xs) = last (last xs)"
  by (induction sep xs rule: join.induct) auto

lemma starting_line_last: "starting_line args \<noteq> [] \<and> last (starting_line args) \<noteq> CHR 0x0A"
proof (cases "args = []")
  case True
  then show ?thesis by (simp add: starting_line_def)
next
  case False
  let ?qs = "map shlex_quote args"
  have ne: "?qs \<noteq> []" using False by simp
  have l: "last ?qs = shlex_quote (last args)" using False by (simp add: last_map)
  have "join '' '' ?qs \<noteq> [] \<and> last (join '' '' ?qs) = last (last ?qs)"
    using join_last [OF ne] l shlex_quote_last [of "last args"] by simp
  then show ?thesis
    using l shlex_quote_last [of "last args"] by (simp add: starting_line_def)
qed

lemma rstrip_starting_line: "rstrip_nl (starting_line args) = starting_line args"
  using starting_line_last [of args] by (simp add: rstrip_nl_id)

lemma history_append_eq:
  "history (history_append ln s) =
     drop (Suc (length (history s)) - LOG_HISTORY_MAX) (history s @ [ln])"
  by (simp add: history_append_def Let_def slice_last_def LOG_HISTORY_MAX_def)

lemma history_append_last:
  "history (history_append ln s) \<noteq> [] \<and> last (history (history_append ln s)) = ln"
  by (simp add: history_append_eq LOG_HISTORY_MAX_def)

lemma history_append_length: "length (history (history_append ln s)) \<le> LOG_HISTORY_MAX"
  by (simp add: history_append_def Let_def length_slice_last LOG_HISTORY_MAX_def)

section \<open>What one broadcast does\<close>

lemma fanout_heap:
  "distinct qs \<Longrightarrow>
   fst (fanout ln qs hp dead) q =
     (if q \<in> set qs \<and> \<not> full (hp q) then (hp q)\<lparr>items := items (hp q) @ [ln]\<rparr> else hp q)"
proof (induction qs arbitrary: hp dead)
  case Nil
  then show ?case by simp
next
  case (Cons a qs)
  then show ?case by (auto simp: put_nowait_def)
qed

lemma fanout_dead:
  "distinct qs \<Longrightarrow> snd (fanout ln qs hp dead) = dead @ filter (\<lambda>q. full (hp q)) qs"
proof (induction qs arbitrary: hp dead)
  case Nil
  then show ?case by simp
next
  case (Cons a qs)
  have "filter (\<lambda>q. full ((hp(a := x)) q)) qs = filter (\<lambda>q. full (hp q)) qs" for x
    using Cons.prems by (intro filter_cong) auto
  with Cons show ?case by (simp add: put_nowait_def)
qed

lemma discard_all_filter: "discard_all dead subs = filter (\<lambda>q. q \<notin> set dead) subs"
proof (induction dead arbitrary: subs)
  case Nil
  then show ?case by simp
next
  case (Cons a dead)
  then show ?case by (simp add: removeAll_filter_not_eq conj_commute) (metis)
qed

lemma deliver_alt:
  "deliver ln snap s =
     s\<lparr>heap := fst (fanout ln snap (heap s) []),
       subscribers := discard_all (snd (fanout ln snap (heap s) [])) (subscribers s)\<rparr>"
  by (simp add: deliver_def split: prod.splits)

lemma heap_deliver:
  "distinct snap \<Longrightarrow>
   heap (deliver ln snap s) q =
     (if q \<in> set snap \<and> \<not> full (heap s q)
      then (heap s q)\<lparr>items := items (heap s q) @ [ln]\<rparr> else heap s q)"
  by (simp add: deliver_alt fanout_heap)

lemma subscribers_deliver:
  "distinct snap \<Longrightarrow>
   subscribers (deliver ln snap s) =
     filter (\<lambda>q. \<not> (q \<in> set snap \<and> full (heap s q))) (subscribers s)"
  by (simp add: deliver_alt fanout_dead discard_all_filter)

lemma heap_broadcast:
  "distinct (subscribers s) \<Longrightarrow>
   heap (broadcast ln s) q =
     (if q \<in> set (subscribers s) \<and> \<not> full (heap s q)
      then (heap s q)\<lparr>items := items (heap s q) @ [rstrip_nl ln]\<rparr> else heap s q)"
  by (simp add: broadcast_def Let_def heap_deliver)

lemma subscribers_broadcast:
  "distinct (subscribers s) \<Longrightarrow>
   subscribers (broadcast ln s) = filter (\<lambda>q. \<not> full (heap s q)) (subscribers s)"
  by (simp add: broadcast_def Let_def subscribers_deliver cong: filter_cong)

lemma wf_state_broadcast: "wf_state s \<Longrightarrow> wf_state (broadcast ln s)"
  by (simp add: wf_state_def subscribers_broadcast list_all_iff)

lemma wf_state_broadcast_all: "wf_state s \<Longrightarrow> wf_state (broadcast_all lns s)"
  by (induction lns arbitrary: s) (simp_all add: wf_state_broadcast)

lemma drop_last_compose:
  "drop (length (drop (length xs - m) xs) + length ys - m) (drop (length xs - m) xs @ ys) =
   drop (length xs + length ys - m) (xs @ ys)"
proof (cases "length xs \<le> m")
  case True
  then show ?thesis by simp
next
  case False
  then have a: "length xs - (length xs - m) + length ys - m = length ys"
    and b: "length ys + (length xs - m) = length xs + length ys - m"
    and c: "length ys - (length xs - (length xs - m)) = length xs + length ys - m - length xs"
    and d: "length xs + length ys - (length xs - m + m) + (length xs - m) =
      length xs + length ys - m"
    by arith+
  show ?thesis by (simp add: a b c d)
qed

lemma history_broadcast_all:
  "history (broadcast_all lns s) =
     (if lns = [] then history s
      else drop (length (history s) + length lns - LOG_HISTORY_MAX) (history s @ map rstrip_nl lns))"
proof (induction lns arbitrary: s)
  case Nil
  then show ?case by simp
next
  case (Cons a lns)
  let ?h1 = "history s @ [rstrip_nl a]"
  have h: "history (broadcast a s) = drop (length ?h1 - LOG_HISTORY_MAX) ?h1"
    by (simp add: history_broadcast history_append_eq)
  show ?case
  proof (cases "lns = []")
    case True
    then show ?thesis by (simp add: h)
  next
    case False
    have "history (broadcast_all (a # lns) s) =
        drop (length (history (broadcast a s)) + length (map rstrip_nl lns) - LOG_HISTORY_MAX)
          (history (broadcast a s) @ map rstrip_nl lns)"
      using False by (simp add: Cons.IH)
    also have "\<dots> = drop (length ?h1 + length (map rstrip_nl lns) - LOG_HISTORY_MAX)
        (?h1 @ map rstrip_nl lns)"
      unfolding h by (rule drop_last_compose)
    finally show ?thesis by simp
  qed
qed

section \<open>Facts about the reader and the slot\<close>

lemma str_nat_last: "str_nat n \<noteq> [] \<and> last (str_nat n) = digit_char (n mod 10)"
  by (subst (1 2) str_nat.simps) simp

lemma digit_char_not_nl: "digit_char (n mod 10) \<noteq> CHR 0x0A"
proof -
  have "n mod 10 < 10" by simp
  then have "48 + n mod 10 < 256" by linarith
  then have "(48 + n mod 10) mod 256 = 48 + n mod 10" by (rule mod_less)
  then show ?thesis
    by (simp add: digit_char_def char_of_eq_iff take_bit_eq_mod)
qed

lemma finished_line_last: "finished_line rc \<noteq> [] \<and> last (finished_line rc) \<noteq> CHR 0x0A"
  using str_nat_last digit_char_not_nl by (simp add: finished_line_def str_int_def)

lemma rstrip_finished_line: "rstrip_nl (finished_line rc) = finished_line rc"
  using finished_line_last [of rc] by (simp add: rstrip_nl_id)

lemma broadcast_rstrip: "broadcast (rstrip_nl ln) s = broadcast ln s"
  by (simp add: broadcast_def rstrip_nl_idem)

lemma read_loop_broadcast_all: "read_loop lns s = broadcast_all lns s"
  by (induction lns arbitrary: s) (simp_all add: broadcast_rstrip)

lemma broadcast_all_fields [simp]:
  "current_proc (broadcast_all lns s) = current_proc s"
  "next_qid (broadcast_all lns s) = next_qid s"
  "os_calls (broadcast_all lns s) = os_calls s"
  by (induction lns arbitrary: s) simp_all

lemma api_stop_slot: "current_proc (snd (api_stop ev s)) = current_proc s"
  by (simp add: api_stop_def Let_def split: option.splits sum.splits)

lemma sse_attach_slot: "current_proc (snd (sse_attach s)) = current_proc s"
  by (simp add: sse_attach_def sse_seed_def sse_register_def Let_def)

lemma sse_next_slot: "sse_next q s = Some (fr, s') \<Longrightarrow> current_proc s' = current_proc s"
  by (auto simp: sse_next_def split: list.splits)

section \<open>Facts about subscriptions\<close>

lemma seed_loop_fits:
  "maxsize q = 0 \<or> length (items q) + length lns \<le> maxsize q \<Longrightarrow>
   seed_loop lns q = q\<lparr>items := items q @ lns\<rparr>"
proof (induction lns arbitrary: q)
  case Nil
  then show ?case by simp
next
  case (Cons a lns)
  have nf: "\<not> full q" using Cons.prems by (auto simp: full_def)
  have "seed_loop lns (q\<lparr>items := items q @ [a]\<rparr>) =
      (q\<lparr>items := items q @ [a]\<rparr>)\<lparr>items := items (q\<lparr>items := items q @ [a]\<rparr>) @ lns\<rparr>"
    using Cons.prems by (intro Cons.IH) auto
  then show ?case using nf by (simp add: put_nowait_def)
qed

lemma sse_attach_eq:
  "sse_attach s =
     (next_qid s,
      s\<lparr>heap := (heap s)(next_qid s := \<lparr>items = slice_last 500 (history s), maxsize = 1000\<rparr>),
        next_qid := Suc (next_qid s),
        subscribers := List.insert (next_qid s) (subscribers s)\<rparr>)"
proof -
  have "length (slice_last 500 (history s)) \<le> 500"
    by (simp add: length_slice_last)
  then have "seed_loop (slice_last 500 (history s)) \<lparr>items = [], maxsize = 1000\<rparr> =
      \<lparr>items = slice_last 500 (history s), maxsize = 1000\<rparr>"
    by (subst seed_loop_fits) simp_all
  then show ?thesis
    by (simp add: sse_attach_def sse_seed_def sse_register_def Let_def)
qed

lemma sse_attach_wf:
  assumes "wf_state s"
  shows "wf_state (snd (sse_attach s))"
    and "subscribers (snd (sse_attach s)) = next_qid s # subscribers s"
proof -
  have "next_qid s \<notin> set (subscribers s)"
    using assms by (auto simp: wf_state_def list_all_iff)
  then show "subscribers (snd (sse_attach s)) = next_qid s # subscribers s"
    by (simp add: sse_attach_eq)
  with assms show "wf_state (snd (sse_attach s))"
    by (auto simp: wf_state_def list_all_iff sse_attach_eq)
qed

lemma broadcast_all_unsubscribed:
  "distinct (subscribers s) \<Longrightarrow> q \<notin> set (subscribers s) \<Longrightarrow>
   heap (broadcast_all ms s) q = heap s q \<and> q \<notin> set (subscribers (broadcast_all ms s))"
proof (induction ms arbitrary: s)
  case Nil
  then show ?case by simp
next
  case (Cons a ms)
  have d: "distinct (subscribers (broadcast a s))"
    using Cons.prems by (simp add: subscribers_broadcast)
  have n: "q \<notin> set (subscribers (broadcast a s))"
    using Cons.prems by (simp add: subscribers_broadcast)
  show ?case
    using Cons.IH [OF d n] Cons.prems by (simp add: heap_broadcast)
qed

lemma broadcast_all_queue:
  "distinct (subscribers s) \<Longrightarrow> q \<in> set (subscribers s) \<Longrightarrow> 0 < maxsize (heap s q) \<Longrightarrow>
   length (items (heap s q)) \<le> maxsize (heap s q) \<Longrightarrow>
   items (heap (broadcast_all ms s) q) =
     items (heap s q) @ take (maxsize (heap s q) - length (items (heap s q))) (map rstrip_nl ms) \<and>
   (q \<in> set (subscribers (broadcast_all ms s)) \<longleftrightarrow>
      length (items (heap s q)) + length ms \<le> maxsize (heap s q))"
proof (induction ms arbitrary: s)
  case Nil
  then show ?case by simp
next
  case (Cons a ms)
  have d: "distinct (subscribers (broadcast a s))"
    using Cons.prems by (simp add: subscribers_broadcast)
  show ?case
  proof (cases "full (heap s q)")
    case True
    then have n: "q \<notin> set (subscribers (broadcast a s))"
      using Cons.prems by (simp add: subscribers_broadcast)
    have h: "heap (broadcast a s) q = heap s q"
      using True Cons.prems by (simp add: heap_broadcast)
    show ?thesis
      using broadcast_all_unsubscribed [OF d n, of ms] True h
      by (simp add: full_def)
  next
    case False
    then have m: "q \<in> set (subscribers (broadcast a s))"
      using Cons.prems by (simp add: subscribers_broadcast)
    have h: "heap (broadcast a s) q = (heap s q)\<lparr>items := items (heap s q) @ [rstrip_nl a]\<rparr>"
      using False Cons.prems by (simp add: heap_broadcast)
    have p: "0 < maxsize (heap (broadcast a s) q)"
      using Cons.prems by (simp add: h)
    have lt: "length (items (heap s q)) < maxsize (heap s q)"
      using False Cons.prems by (simp add: full_def)
    have le: "length (items (heap (broadcast a s) q)) \<le> maxsize (heap (broadcast a s) q)"
      using lt by (simp add: h)
    from lt have k: "maxsize (heap s q) - length (items (heap s q)) =
        Suc (maxsize (heap s q) - Suc (length (items (heap s q))))"
      by simp
    show ?thesis
      using Cons.IH [OF d m p le] lt by (simp add: h k)
  qed
qed

lemma slice_last_map: "slice_last n (map f xs) = map f (slice_last n xs)"
  by (simp add: slice_last_def drop_map)

lemma slice_last_twice:
  assumes "n \<le> m" and "n \<noteq> 0"
  shows "slice_last n (drop (length xs - m) xs) = slice_last n xs"
proof -
  have "length xs - (length xs - m) - n + (length xs - m) = length xs - n"
    using assms by arith
  then show ?thesis using assms by (simp add: slice_last_def)
qed

section \<open>Facts about interleaved runs\<close>

lemma run_steps_broadcast:
  "run_steps [BcAppend, BcSnapshot, BcDeliver] (s, u, BcStart ln) = Some (broadcast ln s, u, BcDone)"
  by (simp add: broadcast_def Let_def)

lemma run_steps_attach:
  "run_steps [SubSeed, SubRegister] (s, SubStart, b) =
     Some (snd (sse_attach s), SubRegistered (fst (sse_attach s)), b)"
  by (simp add: sse_attach_def split: prod.splits)

lemma sse_seed_eq:
  "sse_seed s =
     (next_qid s,
      s\<lparr>heap := (heap s)(next_qid s := \<lparr>items = slice_last 500 (history s), maxsize = 1000\<rparr>),
        next_qid := Suc (next_qid s)\<rparr>)"
proof -
  have "length (slice_last 500 (history s)) \<le> 500"
    by (simp add: length_slice_last)
  then have "seed_loop (slice_last 500 (history s)) \<lparr>items = [], maxsize = 1000\<rparr> =
      \<lparr>items = slice_last 500 (history s), maxsize = 1000\<rparr>"
    by (subst seed_loop_fits) simp_all
  then show ?thesis
    by (simp add: sse_seed_def Let_def)
qed

lemma schedules_between:
  assumes "sch \<in> shuffles [SubSeed, SubRegister] [BcAppend, BcSnapshot, BcDeliver]"
    and "before SubSeed BcAppend sch" and "before BcAppend SubRegister sch"
  shows "sch = [SubSeed, BcAppend, SubRegister, BcSnapshot, BcDeliver] \<or>
    sch = [SubSeed, BcAppend, BcSnapshot, SubRegister, BcDeliver] \<or>
    sch = [SubSeed, BcAppend, BcSnapshot, BcDeliver, SubRegister]"
  using assms by (auto simp: before_def)

lemma fresh_queue: "wf_state s \<Longrightarrow> next_qid s \<notin> set (subscribers s)"
  by (auto simp: wf_state_def list_all_iff)

lemma schedule_registered_first:
  assumes "wf_state s"
  shows "map_option (observe (next_qid s))
      (run_steps [SubSeed, BcAppend, SubRegister, BcSnapshot, BcDeliver] (s, SubStart, BcStart ln)) =
    Some (history (history_append (rstrip_nl ln) s),
          slice_last 500 (history s) @ [rstrip_nl ln], True)"
proof -
  have f: "next_qid s \<notin> set (subscribers s)" using assms by (rule fresh_queue)
  have d: "distinct (next_qid s # subscribers s)"
    using assms f by (simp add: wf_state_def)
  have l: "length (slice_last 500 (history s)) \<le> 500"
    by (simp add: length_slice_last)
  show ?thesis
    using f l
    by (simp add: sse_seed_eq sse_register_def history_append_def Let_def observe_def
        heap_deliver [OF d] subscribers_deliver [OF d] full_def)
qed

lemma schedule_snapshot_first:
  assumes "wf_state s"
  shows "map_option (observe (next_qid s))
      (run_steps [SubSeed, BcAppend, BcSnapshot, SubRegister, BcDeliver] (s, SubStart, BcStart ln)) =
    Some (history (history_append (rstrip_nl ln) s), slice_last 500 (history s), True)"
proof -
  have f: "next_qid s \<notin> set (subscribers s)" using assms by (rule fresh_queue)
  have d: "distinct (subscribers s)"
    using assms by (simp add: wf_state_def)
  show ?thesis
    using f
    by (simp add: sse_seed_eq sse_register_def history_append_def Let_def observe_def
        heap_deliver [OF d] subscribers_deliver [OF d])
qed

lemma schedule_delivered_first:
  assumes "wf_state s"
  shows "map_option (observe (next_qid s))
      (run_steps [SubSeed, BcAppend, BcSnapshot, BcDeliver, SubRegister] (s, SubStart, BcStart ln)) =
    Some (history (history_append (rstrip_nl ln) s), slice_last 500 (history s), True)"
proof -
  have f: "next_qid s \<notin> set (subscribers s)" using assms by (rule fresh_queue)
  have d: "distinct (subscribers s)"
    using assms by (simp add: wf_state_def)
  show ?thesis
    using f
    by (simp add: sse_seed_eq sse_register_def history_append_def Let_def observe_def
        heap_deliver [OF d] subscribers_deliver [OF d])
qed

section \<open>Facts about a subscription's life\<close>

lemma accepted_prefix: "take (length (accepted m n evs)) (appended evs) = accepted m n evs"
  by (induction m n evs rule: accepted.induct) simp_all

lemma accepted_all: "never_full m n evs \<Longrightarrow> accepted m n evs = appended evs"
  by (induction m n evs rule: accepted.induct) simp_all

lemma accepted_length: "length (accepted m n evs) \<le> length (appended evs)"
  by (induction m n evs rule: accepted.induct) simp_all

lemma accepted_short: "\<not> never_full m n evs \<Longrightarrow> length (accepted m n evs) < length (appended evs)"
proof (induction m n evs rule: accepted.induct)
  case (1 m n)
  then show ?case by simp
next
  case (2 m n ln evs)
  then show ?case by (auto simp: not_less)
next
  case (3 m n evs)
  then show ?case by simp
qed

lemma run_events_unsubscribed:
  "distinct (subscribers s) \<Longrightarrow> q \<notin> set (subscribers s) \<Longrightarrow>
   snd (run_events q evs s out) @ map frame (items (heap (fst (run_events q evs s out)) q)) =
     out @ map frame (items (heap s q)) \<and>
   q \<notin> set (subscribers (fst (run_events q evs s out)))"
proof (induction q evs s out rule: run_events.induct)
  case (1 q s out)
  then show ?case by simp
next
  case (2 q ln evs s out)
  have d: "distinct (subscribers (broadcast ln s))"
    using "2.prems" by (simp add: subscribers_broadcast)
  have n: "q \<notin> set (subscribers (broadcast ln s))"
    using "2.prems" by (simp add: subscribers_broadcast)
  have h: "heap (broadcast ln s) q = heap s q"
    using "2.prems" by (simp add: heap_broadcast)
  show ?case using "2.IH" [OF d n] by (simp add: h)
next
  case (3 q evs s out)
  show ?case
  proof (cases "sse_next q s")
    case None
    show ?thesis using "3.IH"(1) [OF None "3.prems"] None by simp
  next
    case (Some x)
    obtain fr s' where x: "x = (fr, s')" by (cases x)
    from Some x obtain ln rest where i: "items (heap s q) = ln # rest"
      and fr: "fr = frame ln"
      and s': "s' = s\<lparr>heap := (heap s)(q := (heap s q)\<lparr>items := rest\<rparr>)\<rparr>"
      by (auto simp: sse_next_def split: list.splits)
    have d: "distinct (subscribers s')" and n: "q \<notin> set (subscribers s')"
      using "3.prems" by (simp_all add: s')
    have i': "items (heap s' q) = rest" by (simp add: s')
    show ?thesis
      using "3.IH"(2) [OF Some x [symmetric] d n] Some x by (simp add: i i' fr)
  qed
qed

lemma run_events_subscribed:
  "distinct (subscribers s) \<Longrightarrow> q \<in> set (subscribers s) \<Longrightarrow> maxsize (heap s q) = m \<Longrightarrow>
   0 < m \<Longrightarrow> length (items (heap s q)) \<le> m \<Longrightarrow>
   snd (run_events q evs s out) @ map frame (items (heap (fst (run_events q evs s out)) q)) =
     out @ map frame (items (heap s q) @ accepted m (length (items (heap s q))) evs) \<and>
   (q \<in> set (subscribers (fst (run_events q evs s out))) \<longleftrightarrow>
      never_full m (length (items (heap s q))) evs)"
proof (induction q evs s out rule: run_events.induct)
  case (1 q s out)
  then show ?case by simp
next
  case (2 q ln evs s out)
  note d = "2.prems"(1)
  have d': "distinct (subscribers (broadcast ln s))"
    using d by (simp add: subscribers_broadcast)
  show ?case
  proof (cases "full (heap s q)")
    case True
    then have n: "q \<notin> set (subscribers (broadcast ln s))"
      using d by (simp add: subscribers_broadcast)
    have h: "heap (broadcast ln s) q = heap s q"
      using True d by (simp add: heap_broadcast)
    have f: "m \<le> length (items (heap s q))"
      using True "2.prems" by (simp add: full_def)
    show ?thesis
      using run_events_unsubscribed [OF d' n, of evs out] f by (simp add: h)
  next
    case False
    then have lt: "length (items (heap s q)) < m"
      using "2.prems" by (simp add: full_def)
    have m': "q \<in> set (subscribers (broadcast ln s))"
      using False "2.prems" by (simp add: subscribers_broadcast)
    have h: "heap (broadcast ln s) q = (heap s q)\<lparr>items := items (heap s q) @ [rstrip_nl ln]\<rparr>"
      using False "2.prems" by (simp add: heap_broadcast)
    have ms: "maxsize (heap (broadcast ln s) q) = m"
      using "2.prems" by (simp add: h)
    have le: "length (items (heap (broadcast ln s) q)) \<le> m"
      using lt by (simp add: h)
    show ?thesis
      using "2.IH" [OF d' m' ms "2.prems"(4) le] lt by (simp add: h)
  qed
next
  case (3 q evs s out)
  show ?case
  proof (cases "sse_next q s")
    case None
    then have e: "items (heap s q) = []"
      by (simp add: sse_next_def split: list.splits)
    show ?thesis using "3.IH"(1) [OF None "3.prems"] None by (simp add: e)
  next
    case (Some x)
    obtain fr s' where x: "x = (fr, s')" by (cases x)
    from Some x obtain ln rest where i: "items (heap s q) = ln # rest"
      and fr: "fr = frame ln"
      and s': "s' = s\<lparr>heap := (heap s)(q := (heap s q)\<lparr>items := rest\<rparr>)\<rparr>"
      by (auto simp: sse_next_def split: list.splits)
    have d: "distinct (subscribers s')" and n: "q \<in> set (subscribers s')"
      and ms: "maxsize (heap s' q) = m"
      using "3.prems" by (simp_all add: s')
    have i': "items (heap s' q) = rest" by (simp add: s')
    have le: "length (items (heap s' q)) \<le> m"
      using "3.prems" by (simp add: i i')
    show ?thesis
      using "3.IH"(2) [OF Some x [symmetric] d n ms "3.prems"(4) le] Some x
      by (simp add: i i' fr)
  qed
qed

lemma accepted_overflow:
  "n \<le> m \<Longrightarrow> m < n + k \<Longrightarrow>
   accepted m n (replicate k (Append x) @ rest) = replicate (m - n) (rstrip_nl x) \<and>
   \<not> never_full m n (replicate k (Append x) @ rest)"
proof (induction k arbitrary: n)
  case 0
  then show ?case by simp
next
  case (Suc k)
  show ?case
  proof (cases "n = m")
    case True
    then show ?thesis by simp
  next
    case False
    with Suc.prems have lt: "n < m" by simp
    then have "Suc n \<le> m" and "m < Suc n + k" using Suc.prems by simp_all
    then have "accepted m (Suc n) (replicate k (Append x) @ rest) =
        replicate (m - Suc n) (rstrip_nl x) \<and>
        \<not> never_full m (Suc n) (replicate k (Append x) @ rest)"
      by (rule Suc.IH)
    moreover from lt have "m - n = Suc (m - Suc n)" by simp
    ultimately show ?thesis
      using lt by simp
  qed
qed

section \<open>Facts about numerals and the reader's states\<close>

lemma of_char_digit_char: "d < 10 \<Longrightarrow> of_char (digit_char d) = 48 + d"
  by (simp add: digit_char_def take_bit_eq_mod)

lemma nat_of_str_snoc: "nat_of_str (ds @ [c]) = 10 * nat_of_str ds + (of_char c - 48)"
  by (simp add: nat_of_str_def)

lemma nat_of_str_str_nat: "nat_of_str (str_nat n) = n"
proof (induction n rule: str_nat.induct)
  case (1 n)
  show ?case
  proof (cases "n < 10")
    case True
    then show ?thesis
      by (subst str_nat.simps) (simp add: nat_of_str_def of_char_digit_char)
  next
    case False
    then have "nat_of_str (str_nat (n div 10)) = n div 10" by (rule "1.IH")
    moreover have "n mod 10 < 10" by simp
    ultimately show ?thesis
      using False by (subst str_nat.simps) (simp add: nat_of_str_snoc of_char_digit_char)
  qed
qed

lemma digit_char_not_minus: "d < 10 \<Longrightarrow> digit_char d \<noteq> CHR ''-''"
  by (simp add: digit_char_def char_of_eq_iff take_bit_eq_mod)

lemma str_nat_hd: "\<exists>d r. d < 10 \<and> str_nat n = digit_char d # r"
proof (induction n rule: str_nat.induct)
  case (1 n)
  show ?case
  proof (cases "n < 10")
    case True
    then show ?thesis by (subst str_nat.simps) auto
  next
    case False
    then obtain d r where "d < 10" and "str_nat (n div 10) = digit_char d # r"
      using "1.IH" by blast
    with False show ?thesis by (subst str_nat.simps) auto
  qed
qed

lemma int_of_str_str_int: "int_of_str (str_int i) = i"
proof (cases "i < 0")
  case True
  then show ?thesis
    by (simp add: str_int_def int_of_str_def nat_of_str_str_nat)
next
  case False
  obtain d r where d: "d < 10" and s: "str_nat (nat i) = digit_char d # r"
    using str_nat_hd by blast
  have "int_of_str (str_nat (nat i)) = int (nat_of_str (str_nat (nat i)))"
    using digit_char_not_minus [OF d] by (simp add: int_of_str_def s)
  with False show ?thesis
    by (simp add: str_int_def nat_of_str_str_nat)
qed

lemma reader_states_done:
  "reader_states pr lns (Some rc) s =
     [broadcast_all lns s,
      (broadcast_all lns s)\<lparr>os_calls := os_calls s @ [CallWait pr]\<rparr>,
      broadcast (finished_line rc) ((broadcast_all lns s)\<lparr>os_calls := os_calls s @ [CallWait pr]\<rparr>),
      (broadcast (finished_line rc)
         ((broadcast_all lns s)\<lparr>os_calls := os_calls s @ [CallWait pr]\<rparr>))
        \<lparr>current_proc := idle_job\<rparr>]"
  by (simp add: reader_states_def Let_def read_loop_broadcast_all)

lemma reader_states_blocked:
  "reader_states pr lns None s =
     [broadcast_all lns s, (broadcast_all lns s)\<lparr>os_calls := os_calls s @ [CallWait pr]\<rparr>]"
  by (simp add: reader_states_def Let_def read_loop_broadcast_all)

section \<open>Stop\<close>

text \<open>
  Claim C4. A Stop while no job is active (\<open>current_proc["p"]\<close> is \<open>None\<close>) answers
  \<open>{"status": "idle"}\<close> and leaves the whole state as it was: the job slot, the history,
  the subscribers and their queues, and the list of calls to the operating system, so no
  signal was sent and nothing was spawned.
\<close>

theorem api_stop_idle:
  "cp_p (current_proc s) = None \<Longrightarrow> api_stop ev s = (Inr (Status ''idle''), s)"
  by (simp add: api_stop_def)

theorem api_stop_idle_witness:
  "cp_p (current_proc (init_state :: nat state)) = None \<and>
   api_stop env_ok (init_state :: nat state) = (Inr (Status ''idle''), init_state)"
  using api_stop_idle [of "init_state :: nat state" env_ok]
  by (simp add: init_state_def idle_job_def)

text \<open>
  Claim C5, as the code has it. A Stop while a job is active never waits for the child and
  changes nothing but the record of calls to the operating system. When \<open>os.getpgid\<close>
  finds the child's process group, exactly one \<open>SIGINT\<close> is sent to that group with
  \<open>os.killpg\<close>; when \<open>os.getpgid\<close> raises, nothing is sent. The answer is
  \<open>{"status": "stopping"}\<close> when the signal is delivered, and when \<open>os.getpgid\<close> or
  \<open>os.killpg\<close> raises \<open>ProcessLookupError\<close>; any other exception of the two calls is not
  caught (l.189) and leaves the route.
\<close>

theorem api_stop_active:
  assumes "cp_p (current_proc s) = Some pr"
  shows "(getpgid ev pr = Inr g \<longrightarrow>
       snd (api_stop ev s) = s\<lparr>os_calls := os_calls s @ [CallKillpg g SIGINT]\<rparr>) \<and>
    (getpgid ev pr = Inl e \<longrightarrow> snd (api_stop ev s) = s) \<and>
    (getpgid ev pr = Inr g \<and> killpg ev g SIGINT = None \<longrightarrow>
       fst (api_stop ev s) = Inr (Status ''stopping'')) \<and>
    (getpgid ev pr = Inr g \<and> killpg ev g SIGINT = Some e \<longrightarrow>
       fst (api_stop ev s) = (if e = ProcessLookupError then Inr (Status ''stopping'') else Inl e)) \<and>
    (getpgid ev pr = Inl e \<longrightarrow>
       fst (api_stop ev s) = (if e = ProcessLookupError then Inr (Status ''stopping'') else Inl e))"
  using assms by (simp add: api_stop_def Let_def split: option.splits)

theorem api_stop_active_witness:
  "cp_p (current_proc running_state) = Some 4242 \<and>
   getpgid env_ok 4242 = Inr 4242 \<and> killpg env_ok 4242 SIGINT = None \<and>
   api_stop env_ok running_state =
     (Inr (Status ''stopping''), running_state\<lparr>os_calls := [CallKillpg 4242 SIGINT]\<rparr>) \<and>
   getpgid env_gone_at_kill 4242 = Inr 4242 \<and>
   killpg env_gone_at_kill 4242 SIGINT = Some ProcessLookupError \<and>
   api_stop env_gone_at_kill running_state =
     (Inr (Status ''stopping''), running_state\<lparr>os_calls := [CallKillpg 4242 SIGINT]\<rparr>) \<and>
   getpgid env_gone_at_getpgid 4242 = Inl ProcessLookupError \<and>
   api_stop env_gone_at_getpgid running_state = (Inr (Status ''stopping''), running_state) \<and>
   getpgid env_eperm 4242 = Inr 4242 \<and>
   killpg env_eperm 4242 SIGINT = Some (OSError ''Operation not permitted'') \<and>
   api_stop env_eperm running_state =
     (Inl (OSError ''Operation not permitted''),
      running_state\<lparr>os_calls := [CallKillpg 4242 SIGINT]\<rparr>)"
proof -
  have a: "cp_p (current_proc running_state) = Some 4242"
    by (simp add: running_state_def)
  have o: "os_calls running_state = []"
    by (simp add: running_state_def init_state_def)
  have g1: "getpgid env_ok 4242 = Inr 4242" and k1: "killpg env_ok 4242 SIGINT = None"
    by (simp_all add: env_ok_def)
  have g2: "getpgid env_gone_at_kill 4242 = Inr 4242"
    and k2: "killpg env_gone_at_kill 4242 SIGINT = Some ProcessLookupError"
    by (simp_all add: env_gone_at_kill_def env_ok_def)
  have g3: "getpgid env_gone_at_getpgid 4242 = Inl ProcessLookupError"
    by (simp add: env_gone_at_getpgid_def env_ok_def)
  have g4: "getpgid env_eperm 4242 = Inr 4242"
    and k4: "killpg env_eperm 4242 SIGINT = Some (OSError ''Operation not permitted'')"
    by (simp_all add: env_eperm_def env_ok_def)
  have 1: "api_stop env_ok running_state =
      (Inr (Status ''stopping''), running_state\<lparr>os_calls := [CallKillpg 4242 SIGINT]\<rparr>)"
    using api_stop_active [OF a, of env_ok 4242] g1 k1 o by (simp add: prod_eq_iff)
  have 2: "api_stop env_gone_at_kill running_state =
      (Inr (Status ''stopping''), running_state\<lparr>os_calls := [CallKillpg 4242 SIGINT]\<rparr>)"
    using api_stop_active [OF a, of env_gone_at_kill 4242 ProcessLookupError] g2 k2 o
    by (simp add: prod_eq_iff)
  have 3: "api_stop env_gone_at_getpgid running_state = (Inr (Status ''stopping''), running_state)"
    using api_stop_active [OF a, of env_gone_at_getpgid _ ProcessLookupError] g3
    by (simp add: prod_eq_iff)
  have 4: "api_stop env_eperm running_state =
      (Inl (OSError ''Operation not permitted''),
       running_state\<lparr>os_calls := [CallKillpg 4242 SIGINT]\<rparr>)"
    using api_stop_active [OF a, of env_eperm 4242 "OSError ''Operation not permitted''"] g4 k4 o
    by (simp add: prod_eq_iff)
  show ?thesis using a g1 k1 1 g2 k2 2 g3 3 g4 k4 4 by (intro conjI)
qed

text \<open>
  Claim C5 as stated fails twice. When the signal is refused (\<open>os.killpg\<close> raises
  \<open>PermissionError\<close>, as for a child started through \<open>sudo\<close>), the Stop of a running job
  does not answer "stopping": the exception leaves the route. And when \<open>os.getpgid\<close> raises
  \<open>ProcessLookupError\<close>, the answer is "stopping" but no \<open>SIGINT\<close> was sent.
\<close>

theorem api_stop_refused_signal:
  "cp_p (current_proc running_state) = Some 4242 \<and>
   fst (api_stop env_eperm running_state) = Inl (OSError ''Operation not permitted'') \<and>
   fst (api_stop env_gone_at_getpgid running_state) = Inr (Status ''stopping'') \<and>
   os_calls (snd (api_stop env_gone_at_getpgid running_state)) = []"
  by (simp add: api_stop_def Let_def running_state_def init_state_def env_eperm_def
      env_gone_at_getpgid_def env_ok_def)


section \<open>Start\<close>

text \<open>
  Claim C1. A Start while a job is active raises \<open>RuntimeError("Another task is running")\<close>
  (the spec's AlreadyRunning) and leaves the whole state as it was: no \<open>Popen\<close> call is made,
  nothing is broadcast (history and queues are the same), and the slot keeps its process
  handle, start timestamp, argv and raw flag.
\<close>

theorem spawn_process_busy:
  "cp_p (current_proc s) \<noteq> None \<Longrightarrow>
   spawn_process ev args raw s = (Inl (RuntimeError ''Another task is running''), s)"
  by (simp add: spawn_process_def)

theorem spawn_process_busy_witness:
  "cp_p (current_proc running_state) \<noteq> None \<and>
   spawn_process env_ok [''yt-dlp'', ''other''] True running_state =
     (Inl (RuntimeError ''Another task is running''), running_state)"
  using spawn_process_busy [of running_state env_ok "[''yt-dlp'', ''other'']" True]
  by (simp add: running_state_def)



text \<open>
  Claim C8. A Start with the slot free whose \<open>Popen\<close> succeeds: the state afterwards is the
  state of one \<open>broadcast\<close> of the announcement, with the slot holding the process handle,
  the time, the argv and the raw flag, and with the \<open>Popen\<close> call and the start of the
  reader thread recorded. So the history gained exactly this one line, which is
  \<open># Starting: \<close> followed by the arguments, each quoted by \<open>shlex.quote\<close>, with single
  spaces between them.
\<close>

theorem spawn_process_started:
  assumes "cp_p (current_proc s) = None" and "popen ev args = Inr pr"
  shows "spawn_process ev args raw s =
     (Inr (),
      (broadcast (starting_line args) s)
        \<lparr>current_proc :=
           \<lparr>cp_p = Some pr, cp_start_ts = Some (time_now ev), cp_args = Some args,
            cp_raw = raw\<rparr>,
         os_calls := os_calls s @ [CallPopen args, ThreadStart pr]\<rparr>) \<and>
   history (snd (spawn_process ev args raw s)) =
     history (history_append (starting_line args) s) \<and>
   last (history (snd (spawn_process ev args raw s))) = starting_line args \<and>
   starting_line args = ''# Starting: '' @ join '' '' (map shlex_quote args)"
proof -
  have r: "spawn_process ev args raw s =
     (Inr (),
      (broadcast (starting_line args) s)
        \<lparr>current_proc :=
           \<lparr>cp_p = Some pr, cp_start_ts = Some (time_now ev), cp_args = Some args,
            cp_raw = raw\<rparr>,
         os_calls := os_calls s @ [CallPopen args, ThreadStart pr]\<rparr>)"
    using assms by (simp add: spawn_process_def Let_def)
  have h: "history (snd (spawn_process ev args raw s)) =
      history (history_append (starting_line args) s)"
    by (simp add: r history_broadcast rstrip_starting_line)
  have l: "last (history (snd (spawn_process ev args raw s))) = starting_line args"
    by (simp add: h history_append_last)
  show ?thesis using r h l by (simp only: starting_line_def simp_thms)
qed

theorem spawn_process_started_witness:
  "cp_p (current_proc (init_state :: nat state)) = None \<and>
   popen env_ok [''yt-dlp'', ''a b''] = Inr 4242 \<and>
   fst (spawn_process env_ok [''yt-dlp'', ''a b''] True init_state) = Inr () \<and>
   current_proc (snd (spawn_process env_ok [''yt-dlp'', ''a b''] True init_state)) =
     \<lparr>cp_p = Some 4242, cp_start_ts = Some 17, cp_args = Some [''yt-dlp'', ''a b''],
      cp_raw = True\<rparr> \<and>
   history (snd (spawn_process env_ok [''yt-dlp'', ''a b''] True init_state)) =
     [''# Starting: yt-dlp '' @ [squote] @ ''a b'' @ [squote]]"
proof -
  have a: "cp_p (current_proc (init_state :: nat state)) = None"
    by (simp add: init_state_def idle_job_def)
  have b: "popen env_ok [''yt-dlp'', ''a b''] = Inr 4242"
    by (simp add: env_ok_def)
  have c: "time_now env_ok = 17"
    by (simp add: env_ok_def)
  have d: "history (history_append (starting_line [''yt-dlp'', ''a b'']) (init_state :: nat state)) =
      [''# Starting: yt-dlp '' @ [squote] @ ''a b'' @ [squote]]"
    by (simp add: history_append_eq init_state_def LOG_HISTORY_MAX_def starting_line_def
        shlex_quote_def safe_char_def squote_def)
  note t = spawn_process_started [OF a b, of True]
  have 1: "fst (spawn_process env_ok [''yt-dlp'', ''a b''] True (init_state :: nat state)) = Inr ()"
    by (simp add: t [THEN conjunct1])
  have 2: "current_proc (snd (spawn_process env_ok [''yt-dlp'', ''a b''] True
      (init_state :: nat state))) =
      \<lparr>cp_p = Some 4242, cp_start_ts = Some 17, cp_args = Some [''yt-dlp'', ''a b''],
       cp_raw = True\<rparr>"
    by (simp add: t [THEN conjunct1] c)
  have 3: "history (snd (spawn_process env_ok [''yt-dlp'', ''a b''] True (init_state :: nat state))) =
      [''# Starting: yt-dlp '' @ [squote] @ ''a b'' @ [squote]]"
    using t [THEN conjunct2, THEN conjunct1] d by (rule trans)
  show ?thesis
    using a b 1 2 3 by (intro conjI)
qed

section \<open>History and fan-out\<close>

text \<open>
  Claim C2. After every \<open>broadcast\<close> the history holds at most \<open>LOG_HISTORY_MAX\<close> = 2000
  lines, whatever the state before. After 2000 + k appends in a row the history is exactly
  the last 2000 of the appended lines (each with its trailing newlines stripped, as
  \<open>broadcast\<close> stores it), in the order of the appends: the first k are gone. More generally,
  from a history within the bound, the history is the last 2000 lines of the old history
  followed by the appended lines.
\<close>

theorem history_bounded:
  "length (history (broadcast ln s)) \<le> LOG_HISTORY_MAX \<and>
   LOG_HISTORY_MAX = 2000 \<and>
   (length lns = LOG_HISTORY_MAX + k \<longrightarrow>
      history (broadcast_all lns s) = map rstrip_nl (drop k lns)) \<and>
   (length (history s) \<le> LOG_HISTORY_MAX \<longrightarrow>
      history (broadcast_all lns s) =
        drop (length (history s) + length lns - LOG_HISTORY_MAX) (history s @ map rstrip_nl lns))"
proof -
  have 1: "length (history (broadcast ln s)) \<le> LOG_HISTORY_MAX"
    by (simp add: history_broadcast history_append_length)
  have 2: "history (broadcast_all lns s) = map rstrip_nl (drop k lns)"
    if "length lns = LOG_HISTORY_MAX + k"
  proof -
    have "lns \<noteq> []" using that by (auto simp: LOG_HISTORY_MAX_def)
    then show ?thesis
      using that by (simp add: history_broadcast_all drop_map)
  qed
  have 3: "history (broadcast_all lns s) =
        drop (length (history s) + length lns - LOG_HISTORY_MAX) (history s @ map rstrip_nl lns)"
    if "length (history s) \<le> LOG_HISTORY_MAX"
    using that by (simp add: history_broadcast_all)
  show ?thesis using 1 2 3 by (simp add: LOG_HISTORY_MAX_def)
qed

theorem history_bounded_witness:
  "length (map str_nat [0..<2003]) = LOG_HISTORY_MAX + 3 \<and>
   history (broadcast_all (map str_nat [0..<2003]) (init_state :: nat state)) =
     map rstrip_nl (drop 3 (map str_nat [0..<2003])) \<and>
   length (history (init_state :: nat state)) \<le> LOG_HISTORY_MAX \<and>
   history (broadcast_all [''a'', ''b''] (init_state :: nat state)) = [''a'', ''b'']"
proof -
  have a: "length (map str_nat [0..<2003]) = LOG_HISTORY_MAX + 3"
    by (simp add: LOG_HISTORY_MAX_def)
  have b: "length (history (init_state :: nat state)) \<le> LOG_HISTORY_MAX"
    by (simp add: init_state_def)
  note t = history_bounded [of _ "init_state :: nat state"]
  have 1: "history (broadcast_all (map str_nat [0..<2003]) (init_state :: nat state)) =
     map rstrip_nl (drop 3 (map str_nat [0..<2003]))"
    using t [of _ "map str_nat [0..<2003]" 3, THEN conjunct2, THEN conjunct2, THEN conjunct1] a
    by (rule mp)
  have "history (broadcast_all [''a'', ''b''] (init_state :: nat state)) =
      drop (length (history (init_state :: nat state)) + length [''a'', ''b''] - LOG_HISTORY_MAX)
        (history (init_state :: nat state) @ map rstrip_nl [''a'', ''b''])"
    using t [of _ "[''a'', ''b'']", THEN conjunct2, THEN conjunct2, THEN conjunct2] b
    by (rule mp)
  then have 2: "history (broadcast_all [''a'', ''b''] (init_state :: nat state)) = [''a'', ''b'']"
    by (simp add: init_state_def LOG_HISTORY_MAX_def rstrip_nl_def)
  show ?thesis using a b 1 2 by (intro conjI)
qed

text \<open>
  Claim C6. \<open>broadcast\<close> has no exception in its result: the only call that can raise,
  \<open>put_nowait\<close>, is inside \<open>try\<close>/\<open>except Exception\<close>, and it never blocks. Whatever the queues
  hold, the line is appended to the history; a subscriber whose \<open>put_nowait\<close> raises (its
  queue is full) is removed from \<open>subscribers\<close> and its queue is left as it was; every other
  subscriber stays and has the line at the end of its queue; queues that are not
  subscribed are untouched.
\<close>

theorem broadcast_drops_full_subscribers:
  assumes "wf_state s"
  shows "history (broadcast ln s) = history (history_append (rstrip_nl ln) s) \<and>
    last (history (broadcast ln s)) = rstrip_nl ln \<and>
    subscribers (broadcast ln s) = filter (\<lambda>q. \<not> full (heap s q)) (subscribers s) \<and>
    (\<forall>q. heap (broadcast ln s) q =
       (if q \<in> set (subscribers s)
        then (case put_nowait (heap s q) (rstrip_nl ln) of Inl e \<Rightarrow> heap s q | Inr qu \<Rightarrow> qu)
        else heap s q)) \<and>
    (\<forall>q. put_nowait (heap s q) (rstrip_nl ln) = Inl QueueFull \<longleftrightarrow> full (heap s q)) \<and>
    wf_state (broadcast ln s)"
proof -
  have d: "distinct (subscribers s)" using assms by (simp add: wf_state_def)
  show ?thesis
    using assms
    by (simp add: history_broadcast history_append_last subscribers_broadcast [OF d]
        heap_broadcast [OF d] put_nowait_def wf_state_broadcast)
qed

theorem broadcast_drops_full_subscribers_witness:
  "wf_state stalled_state \<and>
   full (heap stalled_state 0) \<and> \<not> full (heap stalled_state 1) \<and>
   last (history (broadcast (''hello'' @ [CHR 0x0A]) stalled_state)) = ''hello'' \<and>
   subscribers (broadcast (''hello'' @ [CHR 0x0A]) stalled_state) = [1] \<and>
   items (heap (broadcast (''hello'' @ [CHR 0x0A]) stalled_state) 1) = [''hello''] \<and>
   heap (broadcast (''hello'' @ [CHR 0x0A]) stalled_state) 0 = heap stalled_state 0"
proof -
  have w: "wf_state stalled_state"
    by (simp add: wf_state_def stalled_state_def init_state_def)
  have f0: "full (heap stalled_state 0)" and f1: "\<not> full (heap stalled_state 1)"
    by (simp_all add: stalled_state_def init_state_def full_def)
  have r: "rstrip_nl (''hello'' @ [CHR 0x0A]) = ''hello''"
    by (simp add: rstrip_nl_def)
  have subs: "subscribers stalled_state = [0, 1]"
    by (simp add: stalled_state_def)
  have i1: "items (heap stalled_state 1) = []"
    by (simp add: stalled_state_def)
  note t = broadcast_drops_full_subscribers [OF w, of "''hello'' @ [CHR 0x0A]"]
  have 1: "last (history (broadcast (''hello'' @ [CHR 0x0A]) stalled_state)) = ''hello''"
    using t [THEN conjunct2, THEN conjunct1] r by simp
  have 2: "subscribers (broadcast (''hello'' @ [CHR 0x0A]) stalled_state) = [1]"
    using t [THEN conjunct2, THEN conjunct2, THEN conjunct1] f0 f1 by (simp add: subs)
  note h = t [THEN conjunct2, THEN conjunct2, THEN conjunct2, THEN conjunct1, rule_format]
  have 3: "items (heap (broadcast (''hello'' @ [CHR 0x0A]) stalled_state) 1) = [''hello'']"
    using h [of 1] r f1 i1 by (simp add: subs put_nowait_def)
  have 4: "heap (broadcast (''hello'' @ [CHR 0x0A]) stalled_state) 0 = heap stalled_state 0"
    using h [of 0] f0 by (simp add: subs put_nowait_def)
  show ?thesis using w f0 f1 1 2 3 4 by (intro conjI)
qed

section \<open>The capture loop\<close>

text \<open>
  Claim C9, as the code has it. Every run of \<open>reader\<close>, whether the reading of the child's
  output ends with the stream or with an exception, broadcasts the lines it read and then
  calls \<open>p.wait()\<close>. When the child exits and the call returns the exit code, the reader
  goes through these states in this order: the exit-code line is not yet in the history
  when the wait is called; then exactly one line \<open># Finished with exit code rc\<close> is
  broadcast and ends the history, while the job is still in the slot; then the slot is set
  to idle, and an exception of the reading is raised again. The line holds the decimal
  numeral of the exit code, from which the code can be read back. When the child never
  exits, the reader stays in \<open>p.wait()\<close>: no exit-code line is broadcast and the slot
  keeps the job. No other operation empties an occupied slot: \<open>broadcast\<close>, \<open>api_stop\<close>,
  the subscription's attach, read and close leave \<open>current_proc\<close> as it is, and so does
  \<open>spawn_process\<close> when a job is in the slot.
\<close>

theorem reader_clears_slot:
  "reader_states pr lns (Some rc) s =
     [broadcast_all lns s,
      (broadcast_all lns s)\<lparr>os_calls := os_calls s @ [CallWait pr]\<rparr>,
      broadcast (finished_line rc) ((broadcast_all lns s)\<lparr>os_calls := os_calls s @ [CallWait pr]\<rparr>),
      (broadcast (finished_line rc)
         ((broadcast_all lns s)\<lparr>os_calls := os_calls s @ [CallWait pr]\<rparr>))
        \<lparr>current_proc := idle_job\<rparr>] \<and>
   reader pr lns exc (Some rc) s =
     (Some (case exc of None \<Rightarrow> Inr () | Some e \<Rightarrow> Inl e),
      reader_states pr lns (Some rc) s ! 3) \<and>
   history (reader_states pr lns (Some rc) s ! 1) = history (broadcast_all lns s) \<and>
   current_proc (reader_states pr lns (Some rc) s ! 1) = current_proc s \<and>
   history (reader_states pr lns (Some rc) s ! 2) =
     history (history_append (finished_line rc) (broadcast_all lns s)) \<and>
   last (history (reader_states pr lns (Some rc) s ! 2)) = finished_line rc \<and>
   current_proc (reader_states pr lns (Some rc) s ! 2) = current_proc s \<and>
   history (reader_states pr lns (Some rc) s ! 3) = history (reader_states pr lns (Some rc) s ! 2) \<and>
   cp_p (current_proc (reader_states pr lns (Some rc) s ! 3)) = None \<and>
   os_calls (reader_states pr lns (Some rc) s ! 3) = os_calls s @ [CallWait pr] \<and>
   finished_line rc = ''# Finished with exit code '' @ str_int rc \<and>
   int_of_str (str_int rc) = rc \<and>
   reader pr lns exc None s =
     (None, (broadcast_all lns s)\<lparr>os_calls := os_calls s @ [CallWait pr]\<rparr>) \<and>
   current_proc (broadcast ln s) = current_proc s \<and>
   current_proc (snd (api_stop ev s)) = current_proc s \<and>
   current_proc (snd (sse_attach s)) = current_proc s \<and>
   current_proc (sse_close q s) = current_proc s \<and>
   (\<forall>fr s'. sse_next q s = Some (fr, s') \<longrightarrow> current_proc s' = current_proc s) \<and>
   (cp_p (current_proc s) \<noteq> None \<longrightarrow>
      current_proc (snd (spawn_process ev args raw s)) = current_proc s)"
proof -
  note st = reader_states_done [of pr lns rc s]
  have r: "reader pr lns exc (Some rc) s =
     (Some (case exc of None \<Rightarrow> Inr () | Some e \<Rightarrow> Inl e),
      reader_states pr lns (Some rc) s ! 3)"
    by (simp add: reader_def st)
  have h1: "history (reader_states pr lns (Some rc) s ! 1) = history (broadcast_all lns s)"
    and c1: "current_proc (reader_states pr lns (Some rc) s ! 1) = current_proc s"
    by (simp_all add: st)
  have h2: "history (reader_states pr lns (Some rc) s ! 2) =
     history (history_append (finished_line rc) (broadcast_all lns s))"
    by (simp add: st history_broadcast rstrip_finished_line history_append_eq)
  have l2: "last (history (reader_states pr lns (Some rc) s ! 2)) = finished_line rc"
    by (simp add: h2 history_append_last)
  have c2: "current_proc (reader_states pr lns (Some rc) s ! 2) = current_proc s"
    by (simp add: st)
  have h3: "history (reader_states pr lns (Some rc) s ! 3) =
      history (reader_states pr lns (Some rc) s ! 2)"
    by (simp add: st)
  have c3: "cp_p (current_proc (reader_states pr lns (Some rc) s ! 3)) = None"
    by (simp add: st idle_job_def)
  have o3: "os_calls (reader_states pr lns (Some rc) s ! 3) = os_calls s @ [CallWait pr]"
    by (simp add: st)
  have f: "finished_line rc = ''# Finished with exit code '' @ str_int rc"
    by (simp only: finished_line_def)
  have bl: "reader pr lns exc None s =
     (None, (broadcast_all lns s)\<lparr>os_calls := os_calls s @ [CallWait pr]\<rparr>)"
    by (simp add: reader_def reader_states_blocked)
  have sp: "cp_p (current_proc s) \<noteq> None \<longrightarrow>
      current_proc (snd (spawn_process ev args raw s)) = current_proc s"
    by (simp add: spawn_process_def)
  have b: "current_proc (broadcast ln s) = current_proc s"
    by simp
  have c: "current_proc (sse_close q s) = current_proc s"
    by (simp add: sse_close_def)
  have n: "\<forall>fr s'. sse_next q s = Some (fr, s') \<longrightarrow> current_proc s' = current_proc s"
    using sse_next_slot [of q s] by blast
  show ?thesis
    using st r h1 c1 h2 l2 c2 h3 c3 o3 f int_of_str_str_int [of rc] bl b
      api_stop_slot [of ev s] sse_attach_slot [of s] c n sp
    by (intro conjI)
qed

theorem reader_clears_slot_witness:
  "cp_p (current_proc running_state) \<noteq> None \<and>
   reader 4242 [''hello'' @ [CHR 0x0A]] (Some (ReadError ''decode'')) (Some (- 2)) running_state =
     (Some (Inl (ReadError ''decode'')),
      reader_states 4242 [''hello'' @ [CHR 0x0A]] (Some (- 2)) running_state ! 3) \<and>
   history (reader_states 4242 [''hello'' @ [CHR 0x0A]] (Some (- 2)) running_state ! 2) =
     [''hello'', ''# Finished with exit code -2''] \<and>
   cp_p (current_proc (reader_states 4242 [''hello'' @ [CHR 0x0A]] (Some (- 2)) running_state ! 2)) =
     Some 4242 \<and>
   cp_p (current_proc (reader_states 4242 [''hello'' @ [CHR 0x0A]] (Some (- 2)) running_state ! 3)) =
     None \<and>
   os_calls (reader_states 4242 [''hello'' @ [CHR 0x0A]] (Some (- 2)) running_state ! 3) =
     [CallWait 4242] \<and>
   finished_line (- 2) = ''# Finished with exit code -2'' \<and>
   current_proc (snd (spawn_process env_ok [''x''] False running_state)) =
     current_proc running_state \<and>
   sse_next 0 stalled_state \<noteq> None \<and>
   current_proc (snd (the (sse_next 0 stalled_state))) = current_proc stalled_state"
proof -
  let ?out = "[''hello'' @ [CHR 0x0A]]"
  have a: "cp_p (current_proc running_state) \<noteq> None"
    by (simp add: running_state_def)
  note t = reader_clears_slot [of 4242 ?out "- 2" running_state "Some (ReadError ''decode'')"
      _ env_ok _ "[''x'']" False]
  note t3 = reader_clears_slot [of _ _ _ stalled_state _ _ _ 0]
  have fl: "''# Finished with exit code '' @ str_int (- 2) = ''# Finished with exit code -2''"
    by (simp add: str_int_def str_nat.simps digit_char_def char_of_eq_iff)
  have 1: "reader 4242 ?out (Some (ReadError ''decode'')) (Some (- 2)) running_state =
     (Some (Inl (ReadError ''decode'')), reader_states 4242 ?out (Some (- 2)) running_state ! 3)"
    using t [THEN conjunct2, THEN conjunct1] by simp
  have f: "finished_line (- 2) = ''# Finished with exit code -2''"
    using t [THEN conjunct2, THEN conjunct2, THEN conjunct2, THEN conjunct2, THEN conjunct2,
      THEN conjunct2, THEN conjunct2, THEN conjunct2, THEN conjunct2, THEN conjunct2,
      THEN conjunct1] fl
    by (rule trans)
  have "history (history_append (finished_line (- 2)) (broadcast_all ?out running_state)) =
      [''hello'', ''# Finished with exit code -2'']"
    unfolding f
    by (simp add: history_append_eq history_broadcast running_state_def init_state_def
        rstrip_nl_def LOG_HISTORY_MAX_def)
  with t [THEN conjunct2, THEN conjunct2, THEN conjunct2, THEN conjunct2, THEN conjunct1]
  have 2: "history (reader_states 4242 ?out (Some (- 2)) running_state ! 2) =
      [''hello'', ''# Finished with exit code -2'']"
    by (rule trans)
  have "cp_p (current_proc running_state) = Some 4242"
    by (simp add: running_state_def)
  with t [THEN conjunct2, THEN conjunct2, THEN conjunct2, THEN conjunct2, THEN conjunct2,
      THEN conjunct2, THEN conjunct1]
  have 3: "cp_p (current_proc (reader_states 4242 ?out (Some (- 2)) running_state ! 2)) = Some 4242"
    by simp
  have 4: "cp_p (current_proc (reader_states 4242 ?out (Some (- 2)) running_state ! 3)) = None"
    by (rule t [THEN conjunct2, THEN conjunct2, THEN conjunct2, THEN conjunct2, THEN conjunct2,
      THEN conjunct2, THEN conjunct2, THEN conjunct2, THEN conjunct1])
  have "os_calls running_state @ [CallWait 4242] = [CallWait 4242]"
    by (simp add: running_state_def init_state_def)
  with t [THEN conjunct2, THEN conjunct2, THEN conjunct2, THEN conjunct2, THEN conjunct2,
      THEN conjunct2, THEN conjunct2, THEN conjunct2, THEN conjunct2, THEN conjunct1]
  have 5: "os_calls (reader_states 4242 ?out (Some (- 2)) running_state ! 3) = [CallWait 4242]"
    by (rule trans)
  have 6: "current_proc (snd (spawn_process env_ok [''x''] False running_state)) =
      current_proc running_state"
    using t a by blast
  have n: "sse_next 0 stalled_state =
      Some (frame ''old'',
        stalled_state\<lparr>heap := (heap stalled_state)
          (0 := (heap stalled_state 0)\<lparr>items := replicate 999 ''old''\<rparr>)\<rparr>)"
  proof -
    have "replicate 1000 ''old'' = ''old'' # replicate 999 ''old''"
      by (simp add: replicate_Suc [symmetric] del: replicate_Suc)
    then have "items (heap stalled_state 0) = ''old'' # replicate 999 ''old''"
      by (simp add: stalled_state_def)
    then show ?thesis by (simp add: sse_next_def)
  qed
  then have 7: "sse_next 0 stalled_state \<noteq> None"
    by simp
  have 8: "current_proc (snd (the (sse_next 0 stalled_state))) = current_proc stalled_state"
    using t3 n by (simp del: replicate_Suc)
  show ?thesis using a 1 2 3 4 5 f 6 7 8 by (intro conjI)
qed

text \<open>
  Claim C9 as stated fails on the exit path of a read error taken while the child does not
  exit (it may itself wait for its output to be read): the reader is then held in
  \<open>p.wait()\<close> for good, no exit-code line is broadcast, and the slot still holds the job.
\<close>

theorem reader_blocked_in_wait:
  "fst (reader 4242 [''hello'' @ [CHR 0x0A]] (Some (ReadError ''decode'')) None running_state) = None \<and>
   cp_p (current_proc
     (snd (reader 4242 [''hello'' @ [CHR 0x0A]] (Some (ReadError ''decode'')) None running_state))) =
     Some 4242 \<and>
   history (snd (reader 4242 [''hello'' @ [CHR 0x0A]] (Some (ReadError ''decode'')) None running_state)) =
     [''hello'']"
  by (simp add: reader_def reader_states_blocked history_broadcast history_append_eq
      running_state_def init_state_def rstrip_nl_def LOG_HISTORY_MAX_def)


section \<open>Subscriptions\<close>

text \<open>
  Claim C7, as the code has it. A subscription attached (with no other thread in between)
  after the lines \<open>lns\<close> were appended to an empty history is seeded with the last
  \<open>min (length lns) 500\<close> of them, oldest first, as one contiguous run, and it is registered.
  From then on, through any sequence of appends and of reads by its own generator, the
  frames yielded so far followed by the frames still in the queue are the seed followed by
  the lines that the queue accepted: the lines appended afterwards, in the order of the
  appends, up to the first append that finds 1000 unread lines in the queue. When no append
  finds the queue full, these are all the lines appended and the subscription stays
  registered. Otherwise the subscription is no longer registered, and the line of that
  append and all lines appended later are missing, whatever is read in between.
\<close>

theorem subscription_receives:
  assumes "wf_state s0" and "history s0 = []"
  shows "items (heap (snd (sse_attach (broadcast_all lns s0))) (fst (sse_attach (broadcast_all lns s0)))) =
      map rstrip_nl (slice_last 500 lns) \<and>
    length (items (heap (snd (sse_attach (broadcast_all lns s0)))
      (fst (sse_attach (broadcast_all lns s0))))) = min (length lns) 500 \<and>
    fst (sse_attach (broadcast_all lns s0)) \<in>
      set (subscribers (snd (sse_attach (broadcast_all lns s0)))) \<and>
    snd (run_events (fst (sse_attach (broadcast_all lns s0))) evs
           (snd (sse_attach (broadcast_all lns s0))) []) @
    map frame (items (heap
      (fst (run_events (fst (sse_attach (broadcast_all lns s0))) evs
             (snd (sse_attach (broadcast_all lns s0))) []))
      (fst (sse_attach (broadcast_all lns s0))))) =
      map frame (map rstrip_nl (slice_last 500 lns) @
                 accepted 1000 (min (length lns) 500) evs) \<and>
    (fst (sse_attach (broadcast_all lns s0)) \<in>
       set (subscribers
         (fst (run_events (fst (sse_attach (broadcast_all lns s0))) evs
                (snd (sse_attach (broadcast_all lns s0))) []))) \<longleftrightarrow>
     never_full 1000 (min (length lns) 500) evs) \<and>
    take (length (accepted 1000 (min (length lns) 500) evs)) (appended evs) =
      accepted 1000 (min (length lns) 500) evs \<and>
    (never_full 1000 (min (length lns) 500) evs \<longrightarrow>
       accepted 1000 (min (length lns) 500) evs = appended evs) \<and>
    (\<not> never_full 1000 (min (length lns) 500) evs \<longrightarrow>
       length (accepted 1000 (min (length lns) 500) evs) < length (appended evs))"
proof -
  let ?s = "broadcast_all lns s0"
  let ?q = "fst (sse_attach ?s)"
  let ?s1 = "snd (sse_attach ?s)"
  let ?n = "min (length lns) 500"
  have w: "wf_state ?s" using assms(1) by (rule wf_state_broadcast_all)
  have h: "history ?s = drop (length lns - LOG_HISTORY_MAX) (map rstrip_nl lns)"
    using assms(2) by (simp add: history_broadcast_all)
  have "slice_last 500 (history ?s) = slice_last 500 (map rstrip_nl lns)"
    unfolding h using slice_last_twice [of 500 LOG_HISTORY_MAX "map rstrip_nl lns"]
    by (simp add: LOG_HISTORY_MAX_def)
  then have i: "items (heap ?s1 ?q) = map rstrip_nl (slice_last 500 lns)"
    by (simp add: sse_attach_eq slice_last_map)
  have l: "length (items (heap ?s1 ?q)) = ?n"
    by (simp add: i length_slice_last min.commute)
  have w1: "wf_state ?s1" using w by (rule sse_attach_wf)
  then have d: "distinct (subscribers ?s1)" by (simp add: wf_state_def)
  have m: "?q \<in> set (subscribers ?s1)"
    using sse_attach_wf(2) [OF w] by (simp add: sse_attach_eq)
  have ms: "maxsize (heap ?s1 ?q) = 1000"
    by (simp add: sse_attach_eq)
  have le: "length (items (heap ?s1 ?q)) \<le> 1000"
    by (simp add: l)
  note r = run_events_subscribed [OF d m ms _ le, of evs "[]", unfolded l, unfolded i append_Nil]
  have r1: "snd (run_events ?q evs ?s1 []) @
      map frame (items (heap (fst (run_events ?q evs ?s1 [])) ?q)) =
      map frame (map rstrip_nl (slice_last 500 lns) @ accepted 1000 ?n evs)"
    using r by simp
  have r2: "?q \<in> set (subscribers (fst (run_events ?q evs ?s1 []))) \<longleftrightarrow> never_full 1000 ?n evs"
    using r by simp
  have a1: "take (length (accepted 1000 ?n evs)) (appended evs) = accepted 1000 ?n evs"
    by (rule accepted_prefix)
  have a2: "never_full 1000 ?n evs \<longrightarrow> accepted 1000 ?n evs = appended evs"
    using accepted_all by blast
  have a3: "\<not> never_full 1000 ?n evs \<longrightarrow> length (accepted 1000 ?n evs) < length (appended evs)"
    using accepted_short by blast
  show ?thesis using i l m r1 r2 a1 a2 a3 by (intro conjI)
qed

theorem subscription_receives_witness:
  "wf_state (init_state :: nat state) \<and> history (init_state :: nat state) = [] \<and>
   never_full 1000 (min (length [''a'' @ [CHR 0x0A], ''b'']) 500) [Append ''c'', Get, Append ''d''] \<and>
   items (heap (snd (sse_attach (broadcast_all [''a'' @ [CHR 0x0A], ''b''] (init_state :: nat state))))
     (fst (sse_attach (broadcast_all [''a'' @ [CHR 0x0A], ''b''] (init_state :: nat state))))) =
     [''a'', ''b''] \<and>
   snd (run_events (fst (sse_attach (broadcast_all [''a'' @ [CHR 0x0A], ''b''] (init_state :: nat state))))
          [Append ''c'', Get, Append ''d'']
          (snd (sse_attach (broadcast_all [''a'' @ [CHR 0x0A], ''b''] (init_state :: nat state)))) []) @
   map frame (items (heap
     (fst (run_events (fst (sse_attach (broadcast_all [''a'' @ [CHR 0x0A], ''b''] (init_state :: nat state))))
            [Append ''c'', Get, Append ''d'']
            (snd (sse_attach (broadcast_all [''a'' @ [CHR 0x0A], ''b''] (init_state :: nat state)))) []))
     (fst (sse_attach (broadcast_all [''a'' @ [CHR 0x0A], ''b''] (init_state :: nat state)))))) =
     map frame [''a'', ''b'', ''c'', ''d''] \<and>
   \<not> never_full 1000 (min (length ([] :: line list)) 500)
       (replicate 1001 (Append ''x'') @ [Get, Append ''y'']) \<and>
   snd (run_events (fst (sse_attach (broadcast_all [] (init_state :: nat state))))
          (replicate 1001 (Append ''x'') @ [Get, Append ''y''])
          (snd (sse_attach (broadcast_all [] (init_state :: nat state)))) []) @
   map frame (items (heap
     (fst (run_events (fst (sse_attach (broadcast_all [] (init_state :: nat state))))
            (replicate 1001 (Append ''x'') @ [Get, Append ''y''])
            (snd (sse_attach (broadcast_all [] (init_state :: nat state)))) []))
     (fst (sse_attach (broadcast_all [] (init_state :: nat state)))))) =
     map frame (replicate 1000 ''x'') \<and>
   fst (sse_attach (broadcast_all [] (init_state :: nat state))) \<notin>
     set (subscribers
       (fst (run_events (fst (sse_attach (broadcast_all [] (init_state :: nat state))))
              (replicate 1001 (Append ''x'') @ [Get, Append ''y''])
              (snd (sse_attach (broadcast_all [] (init_state :: nat state)))) [])))"
proof -
  let ?lns = "[''a'' @ [CHR 0x0A], ''b'']"
  let ?evs = "[Append ''c'', Get, Append ''d'']"
  let ?evs2 = "replicate 1001 (Append ''x'') @ [Get, Append ''y'']"
  let ?A = "sse_attach (broadcast_all ?lns (init_state :: nat state))"
  let ?B = "sse_attach (broadcast_all [] (init_state :: nat state))"
  have a: "wf_state (init_state :: nat state)"
    by (simp add: wf_state_def init_state_def)
  have b: "history (init_state :: nat state) = []"
    by (simp add: init_state_def)
  note t = subscription_receives [OF a b, of ?lns ?evs]
  note u = subscription_receives [OF a b, of "[]" ?evs2]
  have r: "map rstrip_nl (slice_last 500 ?lns) = [''a'', ''b'']"
    by (simp add: slice_last_def rstrip_nl_def)
  have nf: "never_full 1000 (min (length ?lns) 500) ?evs"
    by simp
  have ac: "accepted 1000 (min (length ?lns) 500) ?evs = [''c'', ''d'']"
    by (simp add: rstrip_nl_def)
  have 1: "items (heap (snd ?A) (fst ?A)) = [''a'', ''b'']"
    using t [THEN conjunct1] r by (rule trans)
  have 2: "snd (run_events (fst ?A) ?evs (snd ?A) []) @
      map frame (items (heap (fst (run_events (fst ?A) ?evs (snd ?A) [])) (fst ?A))) =
      map frame [''a'', ''b'', ''c'', ''d'']"
    using t [THEN conjunct2, THEN conjunct2, THEN conjunct2, THEN conjunct1]
    unfolding r ac by simp
  have rx: "rstrip_nl ''x'' = ''x''" by (simp add: rstrip_nl_def)
  have ov: "accepted 1000 0 ?evs2 = replicate 1000 ''x'' \<and> \<not> never_full 1000 0 ?evs2"
    using accepted_overflow [of 0 1000 1001 "''x''" "[Get, Append ''y'']"]
    by (simp add: rx del: replicate_Suc replicate.simps)
  then have nf2: "\<not> never_full 1000 (min (length ([] :: line list)) 500) ?evs2"
    by (simp del: replicate_Suc replicate.simps)
  have sl: "map rstrip_nl (slice_last 500 ([] :: line list)) = []"
    by (simp add: slice_last_def)
  have 3: "snd (run_events (fst ?B) ?evs2 (snd ?B) []) @
      map frame (items (heap (fst (run_events (fst ?B) ?evs2 (snd ?B) [])) (fst ?B))) =
      map frame (replicate 1000 ''x'')"
    using u [THEN conjunct2, THEN conjunct2, THEN conjunct2, THEN conjunct1] ov
    unfolding sl by (simp del: replicate_Suc replicate.simps)
  have 4: "fst ?B \<notin> set (subscribers (fst (run_events (fst ?B) ?evs2 (snd ?B) [])))"
    using u [THEN conjunct2, THEN conjunct2, THEN conjunct2, THEN conjunct2, THEN conjunct1] nf2
    by blast
  show ?thesis using a b nf 1 2 nf2 3 4 by (intro conjI)
qed


text \<open>
  Claim C7 as stated fails: a subscription that is attached to the initial state and never
  read has only 1000 of 1001 lines appended afterwards in its queue, and is no longer
  registered.
\<close>

theorem subscription_overflow:
  "items (heap (broadcast_all (replicate 1001 ''x'') (snd (sse_attach (init_state :: nat state))))
     (fst (sse_attach (init_state :: nat state)))) = replicate 1000 ''x'' \<and>
   fst (sse_attach (init_state :: nat state)) \<notin>
     set (subscribers (broadcast_all (replicate 1001 ''x'') (snd (sse_attach (init_state :: nat state)))))"
proof -
  let ?s1 = "snd (sse_attach (init_state :: nat state))"
  have q: "fst (sse_attach (init_state :: nat state)) = 0"
    by (simp add: sse_attach_eq init_state_def)
  have d: "distinct (subscribers ?s1)" and m: "0 \<in> set (subscribers ?s1)"
    and hq: "heap ?s1 0 = \<lparr>items = [], maxsize = 1000\<rparr>"
    by (simp_all add: sse_attach_eq init_state_def slice_last_def)
  have r: "rstrip_nl ''x'' = ''x''" by (simp add: rstrip_nl_def)
  have t: "take 1000 (replicate 1001 ''x'') = replicate 1000 ''x''"
    by (simp del: replicate_Suc replicate.simps)
  show ?thesis
    using broadcast_all_queue [OF d m, of "replicate 1001 ''x''"] t
    by (simp add: q hq r del: replicate_Suc replicate.simps)
qed

section \<open>A subscription attached during an append\<close>

text \<open>
  Claim C3, as the code has it. Take any interleaving of one attach (seed, then register)
  with one \<open>broadcast\<close> (append, then snapshot, then delivery) in which the line is appended
  after the seed was taken and before the registration. The line is never part of the
  seed, which is the last 500 lines of the history before the append. It reaches the new
  queue once, through the fan-out, exactly when the broadcaster takes its snapshot of
  \<open>subscribers\<close> after the registration; when the snapshot comes first, the queue keeps the
  seed alone and the line is in the history only. In each case the queue ends registered.
\<close>

theorem subscribe_during_append:
  assumes "wf_state s"
    and "sch \<in> shuffles [SubSeed, SubRegister] [BcAppend, BcSnapshot, BcDeliver]"
    and "before SubSeed BcAppend sch" and "before BcAppend SubRegister sch"
  shows "map_option (observe (next_qid s)) (run_steps sch (s, SubStart, BcStart ln)) =
    Some (history (history_append (rstrip_nl ln) s),
          slice_last 500 (history s) @ (if before SubRegister BcSnapshot sch then [rstrip_nl ln] else []),
          True)"
proof -
  consider "sch = [SubSeed, BcAppend, SubRegister, BcSnapshot, BcDeliver]"
    | "sch = [SubSeed, BcAppend, BcSnapshot, SubRegister, BcDeliver]"
    | "sch = [SubSeed, BcAppend, BcSnapshot, BcDeliver, SubRegister]"
    using schedules_between [OF assms(2-4)] by blast
  then show ?thesis
  proof cases
    case 1
    have "before SubRegister BcSnapshot sch" by (simp add: 1 before_def)
    then show ?thesis
      using schedule_registered_first [OF assms(1), of ln] by (simp only: 1 if_True)
  next
    case 2
    have "\<not> before SubRegister BcSnapshot sch" by (simp add: 2 before_def)
    then show ?thesis
      using schedule_snapshot_first [OF assms(1), of ln] by (simp only: 2 if_False append_Nil2)
  next
    case 3
    have "\<not> before SubRegister BcSnapshot sch" by (simp add: 3 before_def)
    then show ?thesis
      using schedule_delivered_first [OF assms(1), of ln] by (simp only: 3 if_False append_Nil2)
  qed
qed

theorem subscribe_during_append_witness:
  "wf_state (init_state :: nat state) \<and>
   [SubSeed, BcAppend, SubRegister, BcSnapshot, BcDeliver] \<in>
     shuffles [SubSeed, SubRegister] [BcAppend, BcSnapshot, BcDeliver] \<and>
   before SubSeed BcAppend [SubSeed, BcAppend, SubRegister, BcSnapshot, BcDeliver] \<and>
   before BcAppend SubRegister [SubSeed, BcAppend, SubRegister, BcSnapshot, BcDeliver] \<and>
   before SubRegister BcSnapshot [SubSeed, BcAppend, SubRegister, BcSnapshot, BcDeliver] \<and>
   map_option (observe 0)
     (run_steps [SubSeed, BcAppend, SubRegister, BcSnapshot, BcDeliver]
        (init_state :: nat state, SubStart, BcStart ''x'')) =
   Some ([''x''], [''x''], True)"
proof -
  let ?sch = "[SubSeed, BcAppend, SubRegister, BcSnapshot, BcDeliver]"
  have w: "wf_state (init_state :: nat state)"
    by (simp add: wf_state_def init_state_def)
  have sh: "?sch \<in> shuffles [SubSeed, SubRegister] [BcAppend, BcSnapshot, BcDeliver]"
    by simp
  have b1: "before SubSeed BcAppend ?sch" and b2: "before BcAppend SubRegister ?sch"
    and b3: "before SubRegister BcSnapshot ?sch"
    by (simp_all add: before_def)
  have h: "history (history_append ''x'' (init_state :: nat state)) = [''x'']"
    by (simp add: history_append_eq init_state_def LOG_HISTORY_MAX_def)
  have sl: "slice_last 500 (history (init_state :: nat state)) = []"
    by (simp add: init_state_def slice_last_def)
  have q: "next_qid (init_state :: nat state) = 0"
    by (simp add: init_state_def)
  have r: "rstrip_nl ''x'' = ''x''"
    by (simp add: rstrip_nl_def)
  have "map_option (observe 0) (run_steps ?sch (init_state :: nat state, SubStart, BcStart ''x'')) =
      Some ([''x''], [''x''], True)"
    using subscribe_during_append [OF w sh b1 b2, of "''x''"] b3
    by (simp only: r h sl q if_True append_Nil)
  with w sh b1 b2 b3 show ?thesis by (intro conjI)
qed

text \<open>
  Claim C3 as stated fails: seed, append, snapshot, register, deliver is a run of the code
  (line 50 and line 33 are outside every lock) in which the line \<open>x\<close> is appended after the
  seed and before the registration, and the subscriber never receives it: the history holds
  it, the queue is empty and registered.
\<close>

theorem line_lost_between_seed_and_registration:
  "map_option (observe 0)
     (run_steps [SubSeed, BcAppend, BcSnapshot, SubRegister, BcDeliver]
        (init_state :: nat state, SubStart, BcStart ''x'')) =
   Some ([''x''], [], True)"
proof -
  have w: "wf_state (init_state :: nat state)"
    by (simp add: wf_state_def init_state_def)
  have "history (history_append (rstrip_nl ''x'') (init_state :: nat state)) = [''x'']"
    by (simp add: history_append_eq init_state_def rstrip_nl_def LOG_HISTORY_MAX_def)
  moreover have "slice_last 500 (history (init_state :: nat state)) = []"
    by (simp add: init_state_def slice_last_def)
  moreover have "next_qid (init_state :: nat state) = 0"
    by (simp add: init_state_def)
  ultimately show ?thesis
    using schedule_snapshot_first [OF w, of "''x''"] by simp
qed

text \<open>Outside the window of the claim the code can also deliver a line twice: appended
  before the seed is taken, and fanned out after the registration.\<close>

lemma line_received_twice:
  "map_option (observe 0)
     (run_steps [BcAppend, SubSeed, SubRegister, BcSnapshot, BcDeliver]
        (init_state :: nat state, SubStart, BcStart ''x'')) =
   Some ([''x''], [''x'', ''x''], True)"
  by (simp add: sse_seed_def sse_register_def history_append_def Let_def observe_def
      deliver_def put_nowait_def full_def init_state_def rstrip_nl_def slice_last_def
      LOG_HISTORY_MAX_def)

end
